theory Spec2Isabelle
  imports Main "HOL-Library.Word"
begin

unbundle bit_operations_syntax

section \<open>Data model\<close>

text \<open>
  A datagram is a Python \<open>bytes\<close> object: a list of 8-bit values. Python integers are
  unbounded, so offsets, lengths and decoded header fields are natural numbers (no offset
  of the program is ever negative). A Python \<open>str\<close> is modelled as a \<open>string\<close>; the
  characters of the model have code points below 256, and a code point of 128 or more is
  outside ASCII, as in Python.
\<close>

type_synonym byte = "8 word"

text \<open>The exceptions the codec can raise.\<close>

datatype py_error = IndexError | StructError | UnicodeDecodeError | UnicodeEncodeError

text \<open>
  The value stored under \<open>"rdata"\<close> is either a Python \<open>str\<close> (a dotted IPv4 address or a
  decoded domain name: Python does not tell the two apart) or a \<open>bytes\<close> object.
\<close>

datatype rdata = RStr string | RBytes "byte list"

record rr =
  rr_name :: string
  rr_type :: nat
  rr_class :: nat
  rr_ttl :: nat
  rr_rdlength :: nat
  rr_rdata :: rdata

record parsed_response =
  pr_id :: nat
  pr_flags :: nat
  pr_answers :: "rr list"
  pr_authorities :: "rr list"
  pr_additionals :: "rr list"

section \<open>Python primitives used by the codec\<close>

text \<open>\<open>xs[a:b]\<close> for \<open>0 \<le> a\<close>, \<open>0 \<le> b\<close>: slicing never raises, it truncates.\<close>

definition slice :: "'a list \<Rightarrow> nat \<Rightarrow> nat \<Rightarrow> 'a list" where
  "slice xs a b = take (b - a) (drop a xs)"

text \<open>\<open>".".join(parts)\<close>\<close>

fun join_dots :: "string list \<Rightarrow> string" where
  "join_dots [] = []"
| "join_dots [x] = x"
| "join_dots (x # y # ys) = x @ CHR ''.'' # join_dots (y # ys)"

text \<open>\<open>s.split(".")\<close>: the result is never empty, and \<open>"".split(".") = [""]\<close>.\<close>

fun split_dots :: "string \<Rightarrow> string list" where
  "split_dots [] = [[]]"
| "split_dots (c # cs) =
     (if c = CHR ''.'' then [] # split_dots cs
      else (case split_dots cs of
              [] \<Rightarrow> [[c]]
            | l # ls \<Rightarrow> (c # l) # ls))"

text \<open>\<open>str(n)\<close> for a non-negative integer: its decimal digits.\<close>

definition digit_char :: "nat \<Rightarrow> char" where
  "digit_char d = char_of (48 + d)"

fun str_nat :: "nat \<Rightarrow> string" where
  "str_nat n = (if n < 10 then [digit_char n] else str_nat (n div 10) @ [digit_char (n mod 10)])"

declare str_nat.simps [simp del]

text \<open>\<open>struct.pack("B", n)\<close> and \<open>struct.pack(">H", n)\<close>: out-of-range values raise
  \<open>struct.error\<close>.\<close>

definition pack_B :: "nat \<Rightarrow> py_error + byte list" where
  "pack_B n = (if n < 256 then Inr [of_nat n] else Inl StructError)"

definition pack_H :: "nat \<Rightarrow> byte list" where
  "pack_H n = [of_nat (n div 256), of_nat (n mod 256)]"

text \<open>Big-endian reads, as \<open>struct.unpack\<close> performs them on a slice of the right length.\<close>

definition unpack_H :: "byte list \<Rightarrow> nat \<Rightarrow> nat" where
  "unpack_H bs i = unat (bs ! i) * 256 + unat (bs ! (i + 1))"

definition unpack_I :: "byte list \<Rightarrow> nat \<Rightarrow> nat" where
  "unpack_I bs i = unat (bs ! i) * 16777216 + unat (bs ! (i + 1)) * 65536
                   + unat (bs ! (i + 2)) * 256 + unat (bs ! (i + 3))"

text \<open>\<open>label.encode("ascii")\<close> and \<open>bs.decode("ascii")\<close>.\<close>

definition byte_of_char :: "char \<Rightarrow> byte" where
  "byte_of_char c = of_nat (of_char c)"

definition char_of_byte :: "byte \<Rightarrow> char" where
  "char_of_byte b = char_of (unat b)"

definition is_ascii :: "string \<Rightarrow> bool" where
  "is_ascii s = list_all (\<lambda>c. (of_char c :: nat) < 128) s"

definition encode_ascii :: "string \<Rightarrow> py_error + byte list" where
  "encode_ascii s = (if is_ascii s then Inr (map byte_of_char s) else Inl UnicodeEncodeError)"

definition decode_ascii :: "byte list \<Rightarrow> py_error + string" where
  "decode_ascii bs =
     (if list_all (\<lambda>b. unat b < 128) bs then Inr (map char_of_byte bs)
      else Inl UnicodeDecodeError)"

section \<open>Message codec (mydns.py)\<close>

subsection \<open>build_dns_query\<close>

text \<open>
  The loop over the labels, with the accumulator \<open>qname_bytes\<close>. The length byte is packed
  before the label is encoded, so an oversized label raises \<open>struct.error\<close> first.
\<close>

fun encode_labels :: "string list \<Rightarrow> byte list \<Rightarrow> py_error + byte list" where
  "encode_labels [] qname_bytes = Inr qname_bytes"
| "encode_labels (label # rest) qname_bytes =
     (case pack_B (length label) of
        Inl e \<Rightarrow> Inl e
      | Inr lb \<Rightarrow>
          (case encode_ascii label of
             Inl e \<Rightarrow> Inl e
           | Inr bs \<Rightarrow> encode_labels rest (qname_bytes @ lb @ bs)))"

text \<open>
  The transaction id comes from \<open>random.getrandbits(16)\<close>; it is a parameter of the model,
  a 16-bit value.
\<close>

definition build_dns_query :: "16 word \<Rightarrow> string \<Rightarrow> py_error + (16 word \<times> byte list)" where
  "build_dns_query transaction_id domain_name =
     (let header = pack_H (unat transaction_id) @ pack_H 0x0100 @ pack_H 1
                   @ pack_H 0 @ pack_H 0 @ pack_H 0
      in case encode_labels (split_dots domain_name) [] of
           Inl e \<Rightarrow> Inl e
         | Inr qname_bytes \<Rightarrow>
             Inr (transaction_id, header @ ((qname_bytes @ [0]) @ pack_H 1 @ pack_H 1)))"

subsection \<open>parse_name\<close>

text \<open>
  The \<open>while True\<close> loop on the state \<open>(labels, offset, original_offset, jumped)\<close>. A cycle
  of compression pointers makes the loop run forever: the result \<open>None\<close> stands for that.
  \<open>message[offset]\<close> raises \<open>IndexError\<close> out of range; the slice of a label never raises,
  and a label that overruns the buffer is caught by the next read.
\<close>

partial_function (option) parse_name_loop ::
  "byte list \<Rightarrow> string list \<Rightarrow> nat \<Rightarrow> nat \<Rightarrow> bool
     \<Rightarrow> (py_error + (string list \<times> nat \<times> nat \<times> bool)) option" where
  "parse_name_loop message labels offset original_offset jumped =
     (if length message \<le> offset then Some (Inl IndexError)
      else
        let len = unat (message ! offset) in
        if len AND 0xC0 = 0xC0 then
          (if length message \<le> offset + 1 then Some (Inl IndexError)
           else
             let pointer = push_bit 8 (len AND 0x3F) OR unat (message ! (offset + 1)) in
             parse_name_loop message labels pointer
               (if jumped then original_offset else offset + 2) True)
        else if len = 0 then Some (Inr (labels, offset + 1, original_offset, jumped))
        else
          (case decode_ascii (slice message (offset + 1) (offset + 1 + len)) of
             Inl e \<Rightarrow> Some (Inl e)
           | Inr label \<Rightarrow>
               parse_name_loop message (labels @ [label]) (offset + 1 + len)
                 original_offset jumped))"

declare parse_name_loop.simps [code]

definition parse_name :: "byte list \<Rightarrow> nat \<Rightarrow> (py_error + (string \<times> nat)) option" where
  "parse_name message offset =
     (case parse_name_loop message [] offset offset False of
        None \<Rightarrow> None
      | Some (Inl e) \<Rightarrow> Some (Inl e)
      | Some (Inr (labels, offset', original_offset, jumped)) \<Rightarrow>
          Some (Inr (join_dots labels, if jumped then original_offset else offset')))"

subsection \<open>parse_resource_records\<close>

text \<open>
  One iteration of the loop: the owner name, the fixed 10-byte header (\<open>struct.unpack\<close>
  raises \<open>struct.error\<close> when the slice is shorter than 10 bytes), the interpretation of
  the rdata, and the new offset \<open>rdata_start + rdlength\<close>. The slices of the rdata
  truncate silently at the end of the buffer.
\<close>

definition parse_rdata :: "byte list \<Rightarrow> nat \<Rightarrow> nat \<Rightarrow> nat \<Rightarrow> (py_error + rdata) option" where
  "parse_rdata message rtype rdlength offset =
     (if rtype = 1 \<and> rdlength = 4 then
        (let rdata_bytes = slice message offset (offset + 4);
             ip_parts = map (\<lambda>b. str_nat (unat b)) rdata_bytes
         in Some (Inr (RStr (join_dots ip_parts))))
      else if rtype = 2 then
        (case parse_name message offset of
           None \<Rightarrow> None
         | Some (Inl e) \<Rightarrow> Some (Inl e)
         | Some (Inr (rdata, _)) \<Rightarrow> Some (Inr (RStr rdata)))
      else Some (Inr (RBytes (slice message offset (offset + rdlength)))))"

definition parse_rr :: "byte list \<Rightarrow> nat \<Rightarrow> (py_error + (rr \<times> nat)) option" where
  "parse_rr message offset0 =
     (case parse_name message offset0 of
        None \<Rightarrow> None
      | Some (Inl e) \<Rightarrow> Some (Inl e)
      | Some (Inr (name, offset)) \<Rightarrow>
          (let hdr = slice message offset (offset + 10) in
           if length hdr \<noteq> 10 then Some (Inl StructError)
           else
             let rtype = unpack_H hdr 0; rclass = unpack_H hdr 2;
                 ttl = unpack_I hdr 4; rdlength = unpack_H hdr 8;
                 rdata_start = offset + 10
             in (case parse_rdata message rtype rdlength rdata_start of
                   None \<Rightarrow> None
                 | Some (Inl e) \<Rightarrow> Some (Inl e)
                 | Some (Inr rdata) \<Rightarrow>
                     Some (Inr (\<lparr>rr_name = name, rr_type = rtype, rr_class = rclass,
                                 rr_ttl = ttl, rr_rdlength = rdlength, rr_rdata = rdata\<rparr>,
                                rdata_start + rdlength)))))"

text \<open>The \<open>for _ in range(count)\<close> loop, with the accumulator \<open>records\<close>.\<close>

fun parse_rr_loop :: "byte list \<Rightarrow> nat \<Rightarrow> nat \<Rightarrow> rr list \<Rightarrow> (py_error + (rr list \<times> nat)) option" where
  "parse_rr_loop message 0 offset records = Some (Inr (records, offset))"
| "parse_rr_loop message (Suc count) offset records =
     (case parse_rr message offset of
        None \<Rightarrow> None
      | Some (Inl e) \<Rightarrow> Some (Inl e)
      | Some (Inr (record, offset')) \<Rightarrow>
          parse_rr_loop message count offset' (records @ [record]))"

definition parse_resource_records ::
  "byte list \<Rightarrow> nat \<Rightarrow> nat \<Rightarrow> (py_error + (rr list \<times> nat)) option" where
  "parse_resource_records message count offset = parse_rr_loop message count offset []"

subsection \<open>parse_dns_response\<close>

text \<open>The loop that skips the questions: a name, then 4 bytes that are not read.\<close>

fun skip_questions :: "byte list \<Rightarrow> nat \<Rightarrow> nat \<Rightarrow> (py_error + nat) option" where
  "skip_questions message 0 offset = Some (Inr offset)"
| "skip_questions message (Suc qdcount) offset =
     (case parse_name message offset of
        None \<Rightarrow> None
      | Some (Inl e) \<Rightarrow> Some (Inl e)
      | Some (Inr (_, offset')) \<Rightarrow> skip_questions message qdcount (offset' + 4))"

definition parse_dns_response :: "byte list \<Rightarrow> (py_error + parsed_response) option" where
  "parse_dns_response message =
     (let header = slice message 0 12 in
      if length header \<noteq> 12 then Some (Inl StructError)
      else
        let transaction_id = unpack_H header 0; flags = unpack_H header 2;
            qdcount = unpack_H header 4; ancount = unpack_H header 6;
            nscount = unpack_H header 8; arcount = unpack_H header 10
        in (case skip_questions message qdcount 12 of
              None \<Rightarrow> None
            | Some (Inl e) \<Rightarrow> Some (Inl e)
            | Some (Inr offset) \<Rightarrow>
          (case parse_resource_records message ancount offset of
              None \<Rightarrow> None
            | Some (Inl e) \<Rightarrow> Some (Inl e)
            | Some (Inr (answers, offset)) \<Rightarrow>
          (case parse_resource_records message nscount offset of
              None \<Rightarrow> None
            | Some (Inl e) \<Rightarrow> Some (Inl e)
            | Some (Inr (authorities, offset)) \<Rightarrow>
          (case parse_resource_records message arcount offset of
              None \<Rightarrow> None
            | Some (Inl e) \<Rightarrow> Some (Inl e)
            | Some (Inr (additionals, offset)) \<Rightarrow>
                Some (Inr \<lparr>pr_id = transaction_id, pr_flags = flags, pr_answers = answers,
                           pr_authorities = authorities, pr_additionals = additionals\<rparr>))))))"

section \<open>Resolver engine (mydns.py)\<close>

subsection \<open>choose_next_server and extract_answer_ips\<close>

text \<open>
  The inner and the outer \<open>for\<close> loop of \<open>choose_next_server\<close>; the comparison
  \<open>add["name"] == ns\<close> is between a \<open>str\<close> and whatever the NS record holds as rdata.
\<close>

fun match_additional :: "rdata \<Rightarrow> rr list \<Rightarrow> rdata option" where
  "match_additional ns [] = None"
| "match_additional ns (add # rest) =
     (if RStr (rr_name add) = ns then Some (rr_rdata add) else match_additional ns rest)"

fun match_ns :: "rdata list \<Rightarrow> rr list \<Rightarrow> rdata option" where
  "match_ns [] additional_as = None"
| "match_ns (ns # rest) additional_as =
     (case match_additional ns additional_as of
        Some ip \<Rightarrow> Some ip
      | None \<Rightarrow> match_ns rest additional_as)"

definition choose_next_server :: "parsed_response \<Rightarrow> rdata option" where
  "choose_next_server parsed_response =
     (let ns_names = map rr_rdata (filter (\<lambda>rr. rr_type rr = 2) (pr_authorities parsed_response));
          additional_as = filter (\<lambda>rr. rr_type rr = 1) (pr_additionals parsed_response)
      in case match_ns ns_names additional_as of
           Some ip \<Rightarrow> Some ip
         | None \<Rightarrow>
             (case additional_as of
                first # _ \<Rightarrow> Some (rr_rdata first)
              | [] \<Rightarrow> None))"

fun extract_loop :: "rr list \<Rightarrow> rdata list \<Rightarrow> rdata list" where
  "extract_loop [] ips = ips"
| "extract_loop (rr # rest) ips =
     extract_loop rest (if rr_type rr = 1 then ips @ [rr_rdata rr] else ips)"

definition extract_answer_ips :: "parsed_response \<Rightarrow> rdata list" where
  "extract_answer_ips parsed_response = extract_loop (pr_answers parsed_response) []"

subsection \<open>main\<close>

text \<open>
  The transport is outside the program: a run is driven by a script, one entry per
  iteration of the loop, giving the transaction id drawn for the query and what
  \<open>recvfrom(512)\<close> does (it times out, or returns at most 512 bytes of a datagram). The
  model records the calls on the socket and the two messages that report a failed
  resolution; the listing of the sections on the console is left out. The states of the
  engine: \<open>ANSWERED\<close> with the collected answers, \<open>NO_PROGRESS\<close>, an exception that leaves
  \<open>main\<close> uncaught, a decoder that never returns, and \<open>QUERYING\<close> with the current server
  when the script ends before the run does.
\<close>

datatype recv_result = Timeout | Datagram "byte list"

datatype event =
    SetTimeout nat
  | SendTo "byte list" rdata nat
  | RecvFrom nat
  | Print string
  | Close

datatype stop_reason = ReplyTimedOut | NoNextServer

datatype outcome =
    ANSWERED "rdata list"
  | NO_PROGRESS stop_reason
  | Uncaught py_error
  | Hung
  | QUERYING rdata

fun main_loop :: "(16 word \<times> recv_result) list \<Rightarrow> string \<Rightarrow> rdata \<Rightarrow> event list \<times> outcome" where
  "main_loop [] domain_name current_server_ip = ([], QUERYING current_server_ip)"
| "main_loop ((tid, reply) # script) domain_name current_server_ip =
     (case build_dns_query tid domain_name of
        Inl e \<Rightarrow> ([], Uncaught e)
      | Inr (transaction_id, query) \<Rightarrow>
          (case reply of
             Timeout \<Rightarrow>
               ([SendTo query current_server_ip 53, RecvFrom 512,
                 Print ''Reply timed out. Stopping resolution.''],
                NO_PROGRESS ReplyTimedOut)
           | Datagram d \<Rightarrow>
               (case parse_dns_response (take 512 d) of
                  None \<Rightarrow> ([SendTo query current_server_ip 53, RecvFrom 512], Hung)
                | Some (Inl e) \<Rightarrow> ([SendTo query current_server_ip 53, RecvFrom 512], Uncaught e)
                | Some (Inr parsed) \<Rightarrow>
                    (let answer_ips = extract_answer_ips parsed in
                     if answer_ips \<noteq> [] then
                       ([SendTo query current_server_ip 53, RecvFrom 512], ANSWERED answer_ips)
                     else
                       (case choose_next_server parsed of
                          None \<Rightarrow>
                            ([SendTo query current_server_ip 53, RecvFrom 512,
                              Print ''No intermediate DNS server IP found. Stopping resolution.''],
                             NO_PROGRESS NoNextServer)
                        | Some next_server_ip \<Rightarrow>
                            (let (events, result) = main_loop script domain_name next_server_ip
                             in (SendTo query current_server_ip 53 # RecvFrom 512 # events,
                                 result)))))))"

text \<open>
  \<open>main\<close> after its arguments are read: the timeout is set, the loop runs, and the socket is
  closed when the loop was left by \<open>break\<close>.
\<close>

definition normal_exit :: "outcome \<Rightarrow> bool" where
  "normal_exit result = (case result of ANSWERED _ \<Rightarrow> True | NO_PROGRESS _ \<Rightarrow> True | _ \<Rightarrow> False)"

definition main :: "(16 word \<times> recv_result) list \<Rightarrow> string \<Rightarrow> string \<Rightarrow> event list \<times> outcome" where
  "main script domain_name root_dns_ip =
     (let (events, result) = main_loop script domain_name (RStr root_dns_ip)
      in (SetTimeout 5 # events @ (if normal_exit result then [Close] else []), result))"

section \<open>The first client (dns.py)\<close>

text \<open>
  \<open>build_query_packet\<close> differs from \<open>build_dns_query\<close> in two places: \<open>part.encode()\<close>
  is UTF-8, which never raises (a character of the model from 128 on takes two bytes), and
  the pair returned has the bytes first.
\<close>

definition encode_utf8 :: "string \<Rightarrow> byte list" where
  "encode_utf8 s =
     concat (map (\<lambda>c. let n = (of_char c :: nat)
                        in if n < 128 then [of_nat n]
                           else [of_nat (192 + n div 64), of_nat (128 + n mod 64)]) s)"

fun encode_parts :: "string list \<Rightarrow> byte list \<Rightarrow> py_error + byte list" where
  "encode_parts [] qname = Inr qname"
| "encode_parts (part # rest) qname =
     (case pack_B (length part) of
        Inl e \<Rightarrow> Inl e
      | Inr lb \<Rightarrow> encode_parts rest (qname @ lb @ encode_utf8 part))"

definition build_query_packet :: "16 word \<Rightarrow> string \<Rightarrow> py_error + (byte list \<times> 16 word)" where
  "build_query_packet tid domain_name =
     (let header = pack_H (unat tid) @ pack_H 0x0100 @ pack_H 1 @ pack_H 0 @ pack_H 0 @ pack_H 0
      in case encode_parts (split_dots domain_name) [] of
           Inl e \<Rightarrow> Inl e
         | Inr qname \<Rightarrow> Inr (header @ ((qname @ [0]) @ pack_H 1 @ pack_H 1), tid))"

section \<open>Reference definitions for the properties\<close>

subsection \<open>The wire format of a name\<close>

text \<open>
  A length byte whose two top bits are set is the first byte of a compression pointer; the
  target is the 14-bit number made of its six low bits and the next byte.
\<close>

definition is_pointer :: "byte \<Rightarrow> bool" where
  "is_pointer b = (192 \<le> unat b)"

definition pointer_target :: "byte \<Rightarrow> byte \<Rightarrow> nat" where
  "pointer_target b b' = (unat b mod 64) * 256 + unat b'"

text \<open>
  \<open>wire_labels msg off ls\<close>: the name encoded at \<open>off\<close> spells the labels \<open>ls\<close>, in this
  order, pointers being followed wherever they occur.
\<close>

inductive wire_labels :: "byte list \<Rightarrow> nat \<Rightarrow> string list \<Rightarrow> bool" for msg where
  wire_end: "off < length msg \<Longrightarrow> msg ! off = 0 \<Longrightarrow> wire_labels msg off []"
| wire_label: "off < length msg \<Longrightarrow> msg ! off \<noteq> 0 \<Longrightarrow> \<not> is_pointer (msg ! off)
     \<Longrightarrow> decode_ascii (slice msg (off + 1) (off + 1 + unat (msg ! off))) = Inr l
     \<Longrightarrow> wire_labels msg (off + 1 + unat (msg ! off)) ls
     \<Longrightarrow> wire_labels msg off (l # ls)"
| wire_pointer: "off + 1 < length msg \<Longrightarrow> is_pointer (msg ! off)
     \<Longrightarrow> wire_labels msg (pointer_target (msg ! off) (msg ! (off + 1))) ls
     \<Longrightarrow> wire_labels msg off ls"

text \<open>
  \<open>field_end msg off\<close>: the offset just after the field that the name occupies at \<open>off\<close>.
  The field is read forwards only: labels are skipped up to the terminating zero byte
  (the field ends after it) or up to the first pointer (the field ends after its two
  bytes). No pointer is followed.
\<close>

function field_end :: "byte list \<Rightarrow> nat \<Rightarrow> nat option" where
  "field_end msg off =
     (if length msg \<le> off then None
      else if is_pointer (msg ! off) then Some (off + 2)
      else if msg ! off = 0 then Some (off + 1)
      else field_end msg (off + 1 + unat (msg ! off)))"
  by pat_completeness auto
termination
  by (relation "measure (\<lambda>(msg, off). length msg - off)") auto

declare field_end.simps [simp del]

subsection \<open>The layout of a sequence of resource records\<close>

text \<open>
  The rdata length that a record declares: the last two bytes of the 10-byte header that
  starts at \<open>h\<close>, in big-endian order.
\<close>

definition declared_rdlength :: "byte list \<Rightarrow> nat \<Rightarrow> nat" where
  "declared_rdlength msg h = unat (msg ! (h + 8)) * 256 + unat (msg ! (h + 9))"

text \<open>
  \<open>rr_spans msg n off\<close>: for \<open>n\<close> consecutive records from \<open>off\<close>, where the rdata of each
  starts and how long the record declares it. A record is its name field, a complete
  10-byte header and the declared number of bytes; neither the type of a record nor the
  content of its rdata is looked at.
\<close>

fun rr_spans :: "byte list \<Rightarrow> nat \<Rightarrow> nat \<Rightarrow> (nat \<times> nat) list option" where
  "rr_spans msg 0 off = Some []"
| "rr_spans msg (Suc n) off =
     (case field_end msg off of
        None \<Rightarrow> None
      | Some h \<Rightarrow>
          if length msg < h + 10 then None
          else (case rr_spans msg n (h + 10 + declared_rdlength msg h) of
                  None \<Rightarrow> None
                | Some spans \<Rightarrow> Some ((h + 10, declared_rdlength msg h) # spans)))"

text \<open>The position just after the declared rdata of the last record.\<close>

definition spans_end :: "nat \<Rightarrow> (nat \<times> nat) list \<Rightarrow> nat" where
  "spans_end off spans = (if spans = [] then off else fst (last spans) + snd (last spans))"

text \<open>The 16-bit number that two bytes at \<open>i\<close> spell in big-endian order.\<close>

definition be16_at :: "byte list \<Rightarrow> nat \<Rightarrow> nat" where
  "be16_at msg i = unat (msg ! i) * 256 + unat (msg ! (i + 1))"

text \<open>The type that a record declares: the first two bytes of the header that starts at \<open>h\<close>.\<close>

definition declared_type :: "byte list \<Rightarrow> nat \<Rightarrow> nat" where
  "declared_type msg h = be16_at msg h"

text \<open>
  \<open>record_at msg r (s, l)\<close>: the record \<open>r\<close> is the one whose rdata starts at \<open>s\<close> with
  declared length \<open>l\<close>. Its type and length are those of the header before \<open>s\<close>, and its
  rdata is read at \<open>s\<close>: for type A with length 4 the bytes present of the four, in decimal
  and joined by dots; for type NS the name spelled at \<open>s\<close>; for anything else, type A with
  another length included, the bytes present of the \<open>l\<close> declared.
\<close>

definition record_at :: "byte list \<Rightarrow> rr \<Rightarrow> nat \<times> nat \<Rightarrow> bool" where
  "record_at msg r span =
     (let s = fst span; l = snd span in
      rr_type r = declared_type msg (s - 10) \<and> rr_rdlength r = l \<and>
      (if rr_type r = 1 \<and> l = 4
       then rr_rdata r = RStr (join_dots (map (\<lambda>b. str_nat (unat b)) (slice msg s (s + 4))))
       else if rr_type r = 2
       then \<exists>ls. wire_labels msg s ls \<and> rr_rdata r = RStr (join_dots ls)
       else rr_rdata r = RBytes (slice msg s (s + l))))"

text \<open>
  A buffer holds \<open>n\<close> well-formed records from \<open>off\<close> when each has a name that the wire
  format spells, a complete 10-byte header, and, if its type is NS, rdata that spells a
  name. Nothing is asked of the rdata of any other type, nor that the declared rdata lies
  inside the buffer.
\<close>

fun well_formed_records :: "byte list \<Rightarrow> nat \<Rightarrow> nat \<Rightarrow> bool" where
  "well_formed_records msg 0 off = True"
| "well_formed_records msg (Suc n) off =
     (case field_end msg off of
        None \<Rightarrow> False
      | Some h \<Rightarrow>
          (\<exists>ls. wire_labels msg off ls) \<and> h + 10 \<le> length msg \<and>
          (declared_type msg h = 2 \<longrightarrow> (\<exists>ls. wire_labels msg (h + 10) ls)) \<and>
          well_formed_records msg n (h + 10 + declared_rdlength msg h))"

subsection \<open>Selection of the next server\<close>


subsection \<open>The answer section of a response\<close>

text \<open>
  The questions are skipped as name fields followed by 4 bytes each; the answer records are
  the \<open>ancount\<close> records that follow, \<open>qdcount\<close> and \<open>ancount\<close> being the header fields at
  offsets 4 and 6. \<open>answer_spans\<close> gives the span of the rdata of each answer record.
\<close>

fun questions_end :: "byte list \<Rightarrow> nat \<Rightarrow> nat \<Rightarrow> nat option" where
  "questions_end msg 0 off = Some off"
| "questions_end msg (Suc n) off =
     (case field_end msg off of
        None \<Rightarrow> None
      | Some h \<Rightarrow> questions_end msg n (h + 4))"

definition answer_spans :: "byte list \<Rightarrow> (nat \<times> nat) list option" where
  "answer_spans msg =
     (if length msg < 12 then None
      else (case questions_end msg (be16_at msg 4) 12 of
              None \<Rightarrow> None
            | Some off \<Rightarrow> rr_spans msg (be16_at msg 6) off))"

subsection \<open>The wire format of a query\<close>

text \<open>
  The bytes of a query for the labels \<open>labels\<close> with identifier \<open>tid\<close>: the identifier,
  high byte first, the flags \<open>0x0100\<close>, the four counts 1, 0, 0, 0, each label behind its
  length byte, the zero byte, and type 1 and class 1.
\<close>

definition wire_labels_of :: "string list \<Rightarrow> byte list" where
  "wire_labels_of labels = concat (map (\<lambda>l. of_nat (length l) # map byte_of_char l) labels)"

definition wire_query :: "16 word \<Rightarrow> string list \<Rightarrow> byte list" where
  "wire_query tid labels =
     [ucast (drop_bit 8 tid), ucast tid, 0x01, 0x00, 0, 1, 0, 0, 0, 0, 0, 0]
     @ wire_labels_of labels @ [0] @ [0, 1, 0, 1]"

subsection \<open>Example datagrams\<close>

text \<open>
  Three names: \<open>a\<close> at offset 0, \<open>b\<close> followed by a pointer to 0 at offset 3, and \<open>c\<close>
  followed by a pointer to 3 at offset 7; one more byte follows at offset 11.
\<close>

definition nested_names :: "byte list" where
  "nested_names = [1, 0x61, 0, 1, 0x62, 0xC0, 0, 1, 0x63, 0xC0, 3, 0xFF]"

text \<open>
  Two records and an unknown one, at offset 3, after the name \<open>a\<close> at offset 0: an NS
  record whose rdata is a two-byte pointer inside a declared length of 4, a record of
  type 16 with 3 bytes of rdata and its name spelled out, and an A record.
\<close>

definition mixed_records :: "byte list" where
  "mixed_records =
     [1, 0x61, 0,
      0xC0, 0,  0, 2,  0, 1,  0, 0, 0, 9,  0, 4,  0xC0, 0, 0xAA, 0xBB,
      1, 0x62, 0,  0, 16,  0, 1,  0, 0, 0, 9,  0, 3,  7, 8, 9,
      0xC0, 0,  0, 1,  0, 1,  0, 0, 1, 0,  0, 4,  10, 0, 0, 2]"

text \<open>
  Replies to a query for \<open>a\<close>, each with the question echoed at offset 12: a referral to
  the name server \<open>ns\<close> with its address in the additional section, the same referral
  without any additional record, an answer with an authority and an additional record,
  answers whose only A record declares 3 and 5 bytes of rdata, a datagram cut inside the
  header, and a question whose name is a pointer beyond the end of the datagram.
\<close>

definition referral_glue :: "byte list" where
  "referral_glue =
     [0, 1, 0x81, 0x80, 0, 1, 0, 0, 0, 1, 0, 1,
      1, 0x61, 0, 0, 1, 0, 1,
      0xC0, 12, 0, 2, 0, 1, 0, 0, 0, 5, 0, 4, 2, 0x6E, 0x73, 0,
      0xC0, 31, 0, 1, 0, 1, 0, 0, 0, 5, 0, 4, 10, 0, 0, 2]"

definition referral_no_glue :: "byte list" where
  "referral_no_glue =
     [0, 1, 0x81, 0x80, 0, 1, 0, 0, 0, 1, 0, 0,
      1, 0x61, 0, 0, 1, 0, 1,
      0xC0, 12, 0, 2, 0, 1, 0, 0, 0, 5, 0, 4, 2, 0x6E, 0x73, 0]"

definition full_answer :: "byte list" where
  "full_answer =
     [0, 1, 0x81, 0x80, 0, 1, 0, 1, 0, 1, 0, 1,
      1, 0x61, 0, 0, 1, 0, 1,
      0xC0, 12, 0, 1, 0, 1, 0, 0, 0, 5, 0, 4, 93, 184, 216, 34,
      0xC0, 12, 0, 2, 0, 1, 0, 0, 0, 5, 0, 4, 2, 0x6E, 0x73, 0,
      0xC0, 47, 0, 1, 0, 1, 0, 0, 0, 5, 0, 4, 10, 0, 0, 2]"

definition short_a_answer :: "byte list" where
  "short_a_answer =
     [0, 1, 0x81, 0x80, 0, 1, 0, 1, 0, 0, 0, 0,
      1, 0x61, 0, 0, 1, 0, 1,
      0xC0, 12, 0, 1, 0, 1, 0, 0, 0, 5, 0, 3, 1, 2, 3]"

definition long_a_answer :: "byte list" where
  "long_a_answer =
     [0, 2, 0x81, 0x80, 0, 1, 0, 1, 0, 0, 0, 0,
      1, 0x62, 0, 0, 1, 0, 1,
      0xC0, 12, 0, 1, 0, 1, 0, 0, 0, 5, 0, 5, 1, 2, 3, 4, 5]"

definition truncated_header :: "byte list" where
  "truncated_header = [0, 1, 0x81]"

definition bad_pointer :: "byte list" where
  "bad_pointer = [0, 1, 0x81, 0x80, 0, 1, 0, 0, 0, 0, 0, 0, 0xC0, 0xFF]"


text \<open>
  The query that \<open>build_dns_query\<close> builds, with identifier 0, for the name made of one
  label of 192 letters \<open>a\<close>: the length byte of the label is \<open>0xC0\<close>.
\<close>

definition long_label_query :: "byte list" where
  "long_label_query =
     [0, 0, 1, 0, 0, 1, 0, 0, 0, 0, 0, 0, 0xC0] @ replicate 192 0x61 @ [0, 0, 1, 0, 1]"

section \<open>Properties\<close>

subsection \<open>Bit tests as arithmetic\<close>

lemma and_mask_mod: "(n::nat) AND (2 ^ k - 1) = n mod 2 ^ k"
  by (simp add: take_bit_eq_mod [symmetric] take_bit_eq_mask mask_eq_exp_minus_1)

lemma and_double: "(n::nat) AND (2 * m) = 2 * ((n div 2) AND m)"
  by (subst and_nat_rec) simp

lemma and_192: "(n::nat) AND 192 = 64 * ((n div 64) mod 4)"
proof -
  have e: "(192::nat) = 2 * (2 * (2 * (2 * (2 * (2 * 3)))))" by simp
  have d: "n div 2 div 2 div 2 div 2 div 2 div 2 = n div 64"
    by (simp add: div_mult2_eq [symmetric])
  have "n AND 192 = 64 * ((n div 2 div 2 div 2 div 2 div 2 div 2) AND 3)"
    unfolding e and_double by simp
  moreover have "(n div 64) AND 3 = (n div 64) mod 4"
    using and_mask_mod [of "n div 64" 2] by simp
  ultimately show ?thesis by (simp add: d)
qed

lemma top_bits_iff: "(unat (b :: byte) AND 0xC0 = 0xC0) = is_pointer b"
proof -
  have n: "unat b < 256" using unsigned_less [of b] by simp
  then have "unat b div 64 < 4" by simp
  then have "(unat b div 64) mod 4 = unat b div 64" by simp
  then have "(unat b AND 192 = 192) = (unat b div 64 = 3)" by (simp add: and_192)
  also have "\<dots> = (192 \<le> unat b)" using n by auto
  finally show ?thesis by (simp add: is_pointer_def)
qed

lemma pointer_value:
  "push_bit 8 (unat (b :: byte) AND 0x3F) OR unat (b' :: byte) = pointer_target b b'"
proof -
  have "unat b' < 256" using unsigned_less [of b'] by simp
  then have t: "take_bit 8 (unat b') = unat b'" by (simp add: take_bit_eq_mod)
  have "push_bit 8 (unat b mod 64) + take_bit 8 (unat b')
          = push_bit 8 (unat b mod 64) OR take_bit 8 (unat b')"
    by (rule disjunctive_add) (auto simp: bit_simps)
  moreover have "unat b AND 63 = unat b mod 64" using and_mask_mod [of "unat b" 6] by simp
  ultimately show ?thesis by (simp add: t push_bit_eq_mult pointer_target_def)
qed

text \<open>Evaluation of the codec on explicit bytes.\<close>

lemmas eval_name =
  parse_name_def parse_name_loop.simps slice_def decode_ascii_def char_of_byte_def Let_def
  char_of_def bit_Suc_0_iff

subsection \<open>parse_name\<close>

text \<open>One unfolding of the loop, with the bit tests in arithmetic form.\<close>

lemma parse_name_loop_unfold:
  "parse_name_loop message labels offset original_offset jumped =
     (if length message \<le> offset then Some (Inl IndexError)
      else if is_pointer (message ! offset) then
          (if length message \<le> offset + 1 then Some (Inl IndexError)
           else parse_name_loop message labels
                  (pointer_target (message ! offset) (message ! (offset + 1)))
                  (if jumped then original_offset else offset + 2) True)
      else if message ! offset = 0 then Some (Inr (labels, offset + 1, original_offset, jumped))
      else
          (case decode_ascii (slice message (offset + 1) (offset + 1 + unat (message ! offset))) of
             Inl e \<Rightarrow> Some (Inl e)
           | Inr label \<Rightarrow>
               parse_name_loop message (labels @ [label]) (offset + 1 + unat (message ! offset))
                 original_offset jumped))"
  by (subst parse_name_loop.simps) (simp only: Let_def top_bits_iff pointer_value unat_eq_0)

lemma parse_name_loop_sound_aux:
  assumes "parse_name_loop msg labels off orig jumped = Some y"
  shows "\<forall>labels' off' orig' jumped'. y = Inr (labels', off', orig', jumped') \<longrightarrow>
           (\<exists>ls. wire_labels msg off ls \<and> labels' = labels @ ls) \<and>
           (jumped \<longrightarrow> jumped' \<and> orig' = orig) \<and>
           (\<not> jumped \<longrightarrow> field_end msg off = Some (if jumped' then orig' else off'))"
  using assms
proof (induction rule: parse_name_loop.raw_induct [rotated 1, consumes 1])
  case (1 f msg labels off orig jumped y)
  note IH = "1.IH" and body = "1.hyps"
  show ?case
  proof (intro allI impI)
    fix labels' off' orig' jumped'
    assume y: "y = Inr (labels', off', orig', jumped')"
    let ?goal = "(\<exists>ls. wire_labels msg off ls \<and> labels' = labels @ ls) \<and>
           (jumped \<longrightarrow> jumped' \<and> orig' = orig) \<and>
           (\<not> jumped \<longrightarrow> field_end msg off = Some (if jumped' then orig' else off'))"
    show ?goal
    proof (cases "length msg \<le> off")
      case True
      with body y show ?thesis by simp
    next
      case inb: False
      then have lt: "off < length msg" by simp
      show ?thesis
      proof (cases "is_pointer (msg ! off)")
        case ptr: True
        show ?thesis
        proof (cases "length msg \<le> off + 1")
          case True
          with body inb ptr y show ?thesis by (simp add: Let_def top_bits_iff)
        next
          case False
          with body inb ptr have
            rec: "f msg labels (pointer_target (msg ! off) (msg ! (off + 1)))
                    (if jumped then orig else off + 2) True = Some y"
            by (simp only: Let_def top_bits_iff pointer_value if_True if_False)
          from False have lt1: "off + 1 < length msg" by simp
          from IH [OF rec, rule_format, OF y] obtain ls where
            w: "wire_labels msg (pointer_target (msg ! off) (msg ! (off + 1))) ls" and
            l: "labels' = labels @ ls" and j: "jumped'" and
            o: "orig' = (if jumped then orig else off + 2)"
            by auto
          have fe: "field_end msg off = Some (off + 2)"
            using inb ptr by (simp add: field_end.simps [of msg off])
          from wire_pointer [OF lt1 ptr w] l j o fe show ?thesis by auto
        qed
      next
        case nptr: False
        show ?thesis
        proof (cases "msg ! off = 0")
          case True
          from body inb nptr True y
          have r: "labels' = labels" "off' = off + 1" "orig' = orig" "jumped' = jumped"
            by (simp_all add: Let_def top_bits_iff)
          have fe: "field_end msg off = Some (off + 1)"
            using inb nptr True by (simp add: field_end.simps [of msg off])
          from wire_end [OF lt True] r fe show ?thesis by auto
        next
          case nz: False
          then have nz': "unat (msg ! off) \<noteq> 0" by (simp add: unat_eq_0)
          from body inb nptr nz' y obtain l where
            dec: "decode_ascii (slice msg (off + 1) (off + 1 + unat (msg ! off))) = Inr l" and
            rec: "f msg (labels @ [l]) (off + 1 + unat (msg ! off)) orig jumped = Some y"
            by (auto simp: Let_def top_bits_iff split: sum.splits)
          from IH [OF rec, rule_format, OF y] obtain ls where
            w: "wire_labels msg (off + 1 + unat (msg ! off)) ls" and
            l: "labels' = (labels @ [l]) @ ls" and
            r: "jumped \<longrightarrow> jumped' \<and> orig' = orig"
               "\<not> jumped \<longrightarrow> field_end msg (off + 1 + unat (msg ! off))
                                = Some (if jumped' then orig' else off')"
            by auto
          have fe: "field_end msg off = field_end msg (off + 1 + unat (msg ! off))"
            using inb nptr nz by (simp add: field_end.simps [of msg off])
          from wire_label [OF lt nz nptr dec w] l r fe show ?thesis by auto
        qed
      qed
    qed
  qed
qed

lemma parse_name_sound:
  assumes "parse_name msg off = Some (Inr (name, next))"
  shows "\<exists>labels. wire_labels msg off labels \<and> name = join_dots labels \<and> field_end msg off = Some next"
proof -
  from assms obtain labels' off' orig' jumped' where
    loop: "parse_name_loop msg [] off off False = Some (Inr (labels', off', orig', jumped'))" and
    res: "name = join_dots labels'" "next = (if jumped' then orig' else off')"
    by (auto simp: parse_name_def split: option.splits sum.splits)
  from parse_name_loop_sound_aux [OF loop, rule_format, OF refl] res show ?thesis by auto
qed

lemma field_end_bounds:
  "field_end msg off = Some next \<Longrightarrow>
     off < next \<and> off < length msg \<and> (is_pointer (msg ! off) \<longrightarrow> next = off + 2)"
proof (induction msg off rule: field_end.induct)
  case (1 msg off)
  show ?case
  proof (cases "length msg \<le> off \<or> is_pointer (msg ! off) \<or> msg ! off = 0")
    case True
    with "1.prems" show ?thesis by (auto simp: field_end.simps [of msg off] split: if_splits)
  next
    case False
    with "1.prems" have "field_end msg (off + 1 + unat (msg ! off)) = Some next"
      by (simp add: field_end.simps [of msg off])
    with "1.IH" False show ?thesis by auto
  qed
qed

text \<open>
  The converse of the soundness of \<open>parse_name\<close>: where the wire format spells a name,
  \<open>parse_name\<close> returns it.
\<close>

lemma parse_name_loop_complete:
  "wire_labels msg off ls \<Longrightarrow>
     \<exists>off' orig' jumped'. parse_name_loop msg acc off orig jumped
        = Some (Inr (acc @ ls, off', orig', jumped'))"
proof (induction arbitrary: acc orig jumped rule: wire_labels.induct)
  case (wire_end off)
  then show ?case
    by (subst parse_name_loop_unfold) (simp add: is_pointer_def)
next
  case (wire_label off l ls)
  from wire_label.IH [of "acc @ [l]" orig jumped] obtain off' orig' jumped' where
    "parse_name_loop msg (acc @ [l]) (off + 1 + unat (msg ! off)) orig jumped
       = Some (Inr ((acc @ [l]) @ ls, off', orig', jumped'))"
    by blast
  with wire_label.hyps show ?case
    by (subst parse_name_loop_unfold) simp
next
  case (wire_pointer off ls)
  from wire_pointer.IH [of acc "if jumped then orig else off + 2" True]
  obtain off' orig' jumped' where
    "parse_name_loop msg acc (pointer_target (msg ! off) (msg ! (off + 1)))
       (if jumped then orig else off + 2) True = Some (Inr (acc @ ls, off', orig', jumped'))"
    by blast
  with wire_pointer.hyps show ?case
    by (subst parse_name_loop_unfold) simp
qed

lemma parse_name_complete:
  assumes "wire_labels msg off ls"
  shows "\<exists>nxt. parse_name msg off = Some (Inr (join_dots ls, nxt)) \<and> field_end msg off = Some nxt"
proof -
  from parse_name_loop_complete [OF assms, of "[]" off False] obtain off' orig' jumped' where
    "parse_name_loop msg [] off off False = Some (Inr (ls, off', orig', jumped'))"
    by auto
  then have p: "parse_name msg off = Some (Inr (join_dots ls, if jumped' then orig' else off'))"
    by (simp add: parse_name_def)
  from parse_name_sound [OF p] p show ?thesis by auto
qed

text \<open>
  C1. Whenever \<open>parse_name\<close> returns, the name is the labels of the wire format joined by
  dots in their order, and the offset returned is the end of the field the name occupies:
  after the first pointer met when there is one (pointers followed later do not change
  it), after the zero byte otherwise.
\<close>

theorem parse_name_labels_and_resume_offset:
  assumes "parse_name msg off = Some (Inr (name, next))"
  shows "\<exists>labels. wire_labels msg off labels \<and> name = join_dots labels
           \<and> field_end msg off = Some next"
  using assms by (rule parse_name_sound)

theorem parse_name_labels_and_resume_offset_witness:
  "parse_name nested_names 7 = Some (Inr (''c.b.a'', 11)) \<and>
   (\<exists>labels. wire_labels nested_names 7 labels \<and> ''c.b.a'' = join_dots labels
      \<and> field_end nested_names 7 = Some 11)"
proof -
  have e: "parse_name nested_names 7 = Some (Inr (''c.b.a'', 11))"
    unfolding nested_names_def by (simp add: eval_name)
  from parse_name_labels_and_resume_offset [OF e] e show ?thesis by simp
qed

subsection \<open>parse_resource_records\<close>

lemma length_slice: "length (slice xs a b) = min (b - a) (length xs - a)"
  by (simp add: slice_def)

lemma header_complete: "(length (slice msg h (h + 10)) \<noteq> 10) = (length msg < h + 10)"
  by (auto simp: length_slice)

lemma nth_slice: "i < b - a \<Longrightarrow> a + i < length xs \<Longrightarrow> slice xs a b ! i = xs ! (a + i)"
  by (simp add: slice_def)

lemma parse_rr_Inr:
  assumes "parse_rr msg off = Some (Inr (r, off'))"
  shows "\<exists>name next. parse_name msg off = Some (Inr (name, next)) \<and> next + 10 \<le> length msg
           \<and> rr_name r = name
           \<and> rr_type r = unpack_H (slice msg next (next + 10)) 0
           \<and> rr_rdlength r = declared_rdlength msg next
           \<and> parse_rdata msg (rr_type r) (rr_rdlength r) (next + 10) = Some (Inr (rr_rdata r))
           \<and> off' = next + 10 + rr_rdlength r"
proof -
  from assms obtain name nxt where
    pn: "parse_name msg off = Some (Inr (name, nxt))"
    by (auto simp: parse_rr_def split: option.splits sum.splits)
  from assms pn have len: "nxt + 10 \<le> length msg"
    by (auto simp: parse_rr_def Let_def header_complete split: if_splits)
  then have hc: "length (slice msg nxt (nxt + 10)) = 10" by (simp add: length_slice)
  have rl: "unpack_H (slice msg nxt (nxt + 10)) 8 = declared_rdlength msg nxt"
    using len by (simp add: unpack_H_def nth_slice declared_rdlength_def)
  from assms pn hc rl len show ?thesis
    by (auto simp: parse_rr_def Let_def split: option.splits sum.splits)
qed

lemma parse_rr_loop_unfold:
  "parse_rr_loop message count offset records =
     (if count = 0 then Some (Inr (records, offset))
      else (case parse_rr message offset of
              None \<Rightarrow> None
            | Some (Inl e) \<Rightarrow> Some (Inl e)
            | Some (Inr (record, offset')) \<Rightarrow>
                parse_rr_loop message (count - 1) offset' (records @ [record])))"
  by (cases count) (auto split: option.splits sum.splits)

lemma mixed_names:
  "parse_name mixed_records 3 = Some (Inr (''a'', 5))"
  "parse_name mixed_records 15 = Some (Inr (''a'', 17))"
  "parse_name mixed_records 19 = Some (Inr (''b'', 22))"
  "parse_name mixed_records 35 = Some (Inr (''a'', 37))"
  unfolding mixed_records_def by (simp_all add: eval_name)

lemma mixed_slices:
  "slice mixed_records 5 (5 + 10) = [0, 2, 0, 1, 0, 0, 0, 9, 0, 4]"
  "slice mixed_records 22 (22 + 10) = [0, 16, 0, 1, 0, 0, 0, 9, 0, 3]"
  "slice mixed_records 32 (32 + 3) = [7, 8, 9]"
  "slice mixed_records 37 (37 + 10) = [0, 1, 0, 1, 0, 0, 1, 0, 0, 4]"
  "slice mixed_records 47 (47 + 4) = [10, 0, 0, 2]"
  unfolding mixed_records_def by (simp_all add: slice_def)

lemmas eval_rr = parse_rr_def parse_rdata_def unpack_H_def unpack_I_def Let_def
  str_nat.simps digit_char_def char_of_def bit_Suc_0_iff

lemma mixed_rr_3:
  "parse_rr mixed_records 3 = Some (Inr (\<lparr>rr_name = ''a'', rr_type = 2, rr_class = 1, rr_ttl = 9,
      rr_rdlength = 4, rr_rdata = RStr ''a''\<rparr>, 19))"
  using mixed_slices by (simp add: eval_rr mixed_names)

lemma mixed_rr_19:
  "parse_rr mixed_records 19 = Some (Inr (\<lparr>rr_name = ''b'', rr_type = 16, rr_class = 1, rr_ttl = 9,
      rr_rdlength = 3, rr_rdata = RBytes [7, 8, 9]\<rparr>, 35))"
  using mixed_slices by (simp add: eval_rr mixed_names)

lemma mixed_rr_35:
  "parse_rr mixed_records 35 = Some (Inr (\<lparr>rr_name = ''a'', rr_type = 1, rr_class = 1, rr_ttl = 256,
      rr_rdlength = 4, rr_rdata = RStr ''10.0.0.2''\<rparr>, 51))"
  using mixed_slices by (simp add: eval_rr mixed_names)

lemma mixed_all:
  "parse_resource_records mixed_records 3 3 = Some (Inr (
     [\<lparr>rr_name = ''a'', rr_type = 2, rr_class = 1, rr_ttl = 9, rr_rdlength = 4, rr_rdata = RStr ''a''\<rparr>,
      \<lparr>rr_name = ''b'', rr_type = 16, rr_class = 1, rr_ttl = 9, rr_rdlength = 3, rr_rdata = RBytes [7, 8, 9]\<rparr>,
      \<lparr>rr_name = ''a'', rr_type = 1, rr_class = 1, rr_ttl = 256, rr_rdlength = 4, rr_rdata = RStr ''10.0.0.2''\<rparr>],
     51))"
  by (simp add: parse_resource_records_def parse_rr_loop_unfold mixed_rr_3 mixed_rr_19 mixed_rr_35)

lemma skip_questions_mono:
  "skip_questions msg n off = Some (Inr off') \<Longrightarrow> off \<le> off'"
proof (induction n arbitrary: off)
  case 0
  then show ?case by simp
next
  case (Suc n)
  from Suc.prems obtain name nxt where
    pn: "parse_name msg off = Some (Inr (name, nxt))" and
    rest: "skip_questions msg n (nxt + 4) = Some (Inr off')"
    by (auto split: option.splits sum.splits)
  from parse_name_sound [OF pn] have "field_end msg off = Some nxt" by auto
  then have "off < nxt" by (auto dest: field_end_bounds)
  with Suc.IH [OF rest] show ?case by simp
qed

lemma parse_rr_progress:
  assumes "parse_rr msg off = Some (Inr (r, off'))"
  shows "off + 11 \<le> off'"
proof -
  from parse_rr_Inr [OF assms] obtain name nxt where
    pn: "parse_name msg off = Some (Inr (name, nxt))" and o: "off' = nxt + 10 + rr_rdlength r"
    by auto
  from parse_name_sound [OF pn] have "field_end msg off = Some nxt" by auto
  then have "off < nxt" by (auto dest: field_end_bounds)
  with o show ?thesis by simp
qed

lemma parse_rr_loop_mono:
  "parse_rr_loop msg n off acc = Some (Inr (rs, off')) \<Longrightarrow> off \<le> off'"
proof (induction n arbitrary: off acc)
  case 0
  then show ?case by simp
next
  case (Suc n)
  from Suc.prems obtain r off1 where
    rr: "parse_rr msg off = Some (Inr (r, off1))" and
    rest: "parse_rr_loop msg n off1 (acc @ [r]) = Some (Inr (rs, off'))"
    by (auto split: option.splits sum.splits)
  from parse_rr_progress [OF rr] Suc.IH [OF rest] show ?case by simp
qed

lemma parse_rdata_record:
  assumes "parse_rdata msg t l s = Some (Inr rd)"
  shows "if t = 1 \<and> l = 4
         then rd = RStr (join_dots (map (\<lambda>b. str_nat (unat b)) (slice msg s (s + 4))))
         else if t = 2 then \<exists>ls. wire_labels msg s ls \<and> rd = RStr (join_dots ls)
         else rd = RBytes (slice msg s (s + l))"
proof (cases "t = 1 \<and> l = 4")
  case True
  with assms show ?thesis by (simp add: parse_rdata_def Let_def)
next
  case nA: False
  show ?thesis
  proof (cases "t = 2")
    case True
    with assms nA obtain nm nxt where pn: "parse_name msg s = Some (Inr (nm, nxt))" and
      rd: "rd = RStr nm"
      by (auto simp: parse_rdata_def split: option.splits sum.splits)
    from parse_name_sound [OF pn] rd nA True show ?thesis by auto
  next
    case False
    with assms nA show ?thesis by (auto simp: parse_rdata_def)
  qed
qed

lemma parse_rdata_returns:
  assumes "t = 2 \<longrightarrow> (\<exists>ls. wire_labels msg s ls)"
  shows "\<exists>rd. parse_rdata msg t l s = Some (Inr rd)"
proof (cases "t = 1 \<and> l = 4")
  case True
  then show ?thesis by (simp add: parse_rdata_def Let_def)
next
  case nA: False
  show ?thesis
  proof (cases "t = 2")
    case True
    with assms obtain ls where "wire_labels msg s ls" by auto
    from parse_name_complete [OF this] obtain nxt where
      "parse_name msg s = Some (Inr (join_dots ls, nxt))" by auto
    with nA True show ?thesis by (simp add: parse_rdata_def)
  next
    case False
    with nA show ?thesis by (auto simp: parse_rdata_def)
  qed
qed

lemma header_fields:
  assumes "h + 10 \<le> length msg"
  shows "unpack_H (slice msg h (h + 10)) 0 = declared_type msg h"
    and "unpack_H (slice msg h (h + 10)) 8 = declared_rdlength msg h"
  using assms by (simp_all add: unpack_H_def nth_slice declared_type_def be16_at_def declared_rdlength_def)

lemma parse_rr_record:
  assumes "parse_rr msg off = Some (Inr (r, off'))"
  shows "\<exists>h. field_end msg off = Some h \<and> h + 10 \<le> length msg
           \<and> record_at msg r (h + 10, declared_rdlength msg h)
           \<and> off' = h + 10 + declared_rdlength msg h"
proof -
  from parse_rr_Inr [OF assms] obtain name h where
    pn: "parse_name msg off = Some (Inr (name, h))" and len: "h + 10 \<le> length msg" and
    ty: "rr_type r = unpack_H (slice msg h (h + 10)) 0" and
    rl: "rr_rdlength r = declared_rdlength msg h" and
    rd: "parse_rdata msg (rr_type r) (rr_rdlength r) (h + 10) = Some (Inr (rr_rdata r))" and
    o: "off' = h + 10 + rr_rdlength r"
    by blast
  from parse_name_sound [OF pn] have fe: "field_end msg off = Some h" by auto
  from parse_rdata_record [OF rd] ty rl header_fields(1) [OF len]
  have "record_at msg r (h + 10, declared_rdlength msg h)"
    by (simp add: record_at_def Let_def)
  with fe len o rl show ?thesis by auto
qed

lemma parse_rr_returns:
  assumes w: "wire_labels msg off ls" and fe: "field_end msg off = Some h"
      and len: "h + 10 \<le> length msg"
      and ns: "declared_type msg h = 2 \<longrightarrow> (\<exists>ls. wire_labels msg (h + 10) ls)"
  shows "\<exists>r. parse_rr msg off = Some (Inr (r, h + 10 + declared_rdlength msg h))"
proof -
  from parse_name_complete [OF w] fe have pn: "parse_name msg off = Some (Inr (join_dots ls, h))"
    by auto
  from len have hc: "length (slice msg h (h + 10)) = 10" by (simp add: length_slice)
  from parse_rdata_returns [OF ns, of "declared_rdlength msg h"] obtain rd where
    rd: "parse_rdata msg (declared_type msg h) (declared_rdlength msg h) (h + 10) = Some (Inr rd)"
    by auto
  show ?thesis
    by (simp add: parse_rr_def pn hc Let_def header_fields [OF len] rd)
qed

lemma parse_rr_loop_records:
  "parse_rr_loop msg count off acc = Some (Inr (records, off')) \<Longrightarrow>
     \<exists>spans rs. rr_spans msg count off = Some spans \<and> records = acc @ rs
        \<and> list_all2 (record_at msg) rs spans \<and> off' = spans_end off spans"
proof (induction count arbitrary: off acc)
  case 0
  then show ?case by (simp add: spans_end_def)
next
  case (Suc count)
  from Suc.prems obtain r off1 where
    rr: "parse_rr msg off = Some (Inr (r, off1))" and
    rest: "parse_rr_loop msg count off1 (acc @ [r]) = Some (Inr (records, off'))"
    by (auto split: option.splits sum.splits)
  from parse_rr_record [OF rr] obtain h where
    fe: "field_end msg off = Some h" and len: "h + 10 \<le> length msg" and
    ra: "record_at msg r (h + 10, declared_rdlength msg h)" and
    o1: "off1 = h + 10 + declared_rdlength msg h"
    by blast
  from Suc.IH [OF rest] obtain spans rs where
    sp: "rr_spans msg count off1 = Some spans" and rs: "records = (acc @ [r]) @ rs" and
    la: "list_all2 (record_at msg) rs spans" and e: "off' = spans_end off1 spans"
    by blast
  let ?spans = "(h + 10, declared_rdlength msg h) # spans"
  have "rr_spans msg (Suc count) off = Some ?spans"
    using fe len sp o1 by simp
  moreover have "records = acc @ (r # rs)" using rs by simp
  moreover have "list_all2 (record_at msg) (r # rs) ?spans" using ra la by simp
  moreover have "off' = spans_end off ?spans" using e o1 by (simp add: spans_end_def)
  ultimately show ?case by blast
qed

lemma parse_rr_loop_returns:
  "well_formed_records msg count off \<Longrightarrow>
     \<exists>records off'. parse_rr_loop msg count off acc = Some (Inr (records, off'))"
proof (induction count arbitrary: off acc)
  case 0
  show ?case by simp
next
  case (Suc count)
  from Suc.prems obtain h ls where
    fe: "field_end msg off = Some h" and w: "wire_labels msg off ls" and
    len: "h + 10 \<le> length msg" and
    ns: "declared_type msg h = 2 \<longrightarrow> (\<exists>ls. wire_labels msg (h + 10) ls)" and
    wf: "well_formed_records msg count (h + 10 + declared_rdlength msg h)"
    by (auto split: option.splits)
  from parse_rr_returns [OF w fe len ns] obtain r where
    rr: "parse_rr msg off = Some (Inr (r, h + 10 + declared_rdlength msg h))" by blast
  from Suc.IH [OF wf, of "acc @ [r]"] rr show ?case by simp
qed

lemma record_at_rdlength: "list_all2 (record_at msg) rs spans \<Longrightarrow> map rr_rdlength rs = map snd spans"
  by (induction rule: list_all2_induct) (simp_all add: record_at_def Let_def)

lemma mixed_well_formed: "well_formed_records mixed_records 3 3"
proof -
  have w: "\<exists>ls. wire_labels mixed_records 3 ls" "\<exists>ls. wire_labels mixed_records 15 ls"
          "\<exists>ls. wire_labels mixed_records 19 ls" "\<exists>ls. wire_labels mixed_records 35 ls"
    using mixed_names [THEN parse_name_sound] by blast+
  have f: "field_end mixed_records 3 = Some 5" "field_end mixed_records 19 = Some 22"
          "field_end mixed_records 35 = Some 37"
    using mixed_names [THEN parse_name_sound] by auto
  have l: "length mixed_records = 51" by (simp add: mixed_records_def)
  have d: "declared_rdlength mixed_records 5 = 4" "declared_rdlength mixed_records 22 = 3"
          "declared_rdlength mixed_records 37 = 4"
          "declared_type mixed_records 5 = 2" "declared_type mixed_records 22 = 16"
          "declared_type mixed_records 37 = 1"
    by (simp_all add: declared_rdlength_def declared_type_def be16_at_def mixed_records_def)
  have "well_formed_records mixed_records (Suc (Suc (Suc 0))) 3"
    by (simp add: f w l d)
  then show ?thesis by (simp add: numeral_3_eq_3)
qed

text \<open>
  C2. On every buffer that holds \<open>count\<close> well-formed records, \<open>parse_resource_records\<close>
  returns; and whenever it returns, it has decoded \<open>count\<close> records, each is the record of
  its span (its type and rdata length are those its header declares, its rdata is read at
  the start of the span), and the offset returned is the position just after the declared
  rdata of the last record (the start offset when \<open>count = 0\<close>), whatever the types of
  the records and whatever their rdata holds.
\<close>

theorem parse_resource_records_offset:
  "(well_formed_records msg count off \<longrightarrow>
      (\<exists>records off'. parse_resource_records msg count off = Some (Inr (records, off')))) \<and>
   (parse_resource_records msg count off = Some (Inr (records, off')) \<longrightarrow>
      (\<exists>spans. rr_spans msg count off = Some spans \<and> length records = count
         \<and> list_all2 (record_at msg) records spans
         \<and> map rr_rdlength records = map snd spans
         \<and> off' = spans_end off spans))"
proof (intro conjI impI)
  assume "well_formed_records msg count off"
  then show "\<exists>records off'. parse_resource_records msg count off = Some (Inr (records, off'))"
    unfolding parse_resource_records_def by (rule parse_rr_loop_returns)
next
  assume "parse_resource_records msg count off = Some (Inr (records, off'))"
  then have "parse_rr_loop msg count off [] = Some (Inr (records, off'))"
    by (simp add: parse_resource_records_def)
  from parse_rr_loop_records [OF this] obtain spans where
    sp: "rr_spans msg count off = Some spans" and la: "list_all2 (record_at msg) records spans"
    and e: "off' = spans_end off spans"
    by auto
  from sp have "length spans = count"
  proof (induction count arbitrary: off spans)
    case 0
    then show ?case by simp
  next
    case (Suc count)
    then show ?case by (auto split: option.splits if_splits)
  qed
  with la have "length records = count" by (simp add: list_all2_lengthD)
  with sp la e record_at_rdlength [OF la]
  show "\<exists>spans. rr_spans msg count off = Some spans \<and> length records = count
         \<and> list_all2 (record_at msg) records spans
         \<and> map rr_rdlength records = map snd spans
         \<and> off' = spans_end off spans"
    by blast
qed

theorem parse_resource_records_offset_witness:
  "well_formed_records mixed_records 3 3 \<and>
   parse_resource_records mixed_records 3 3 = Some (Inr (
     [\<lparr>rr_name = ''a'', rr_type = 2, rr_class = 1, rr_ttl = 9, rr_rdlength = 4, rr_rdata = RStr ''a''\<rparr>,
      \<lparr>rr_name = ''b'', rr_type = 16, rr_class = 1, rr_ttl = 9, rr_rdlength = 3, rr_rdata = RBytes [7, 8, 9]\<rparr>,
      \<lparr>rr_name = ''a'', rr_type = 1, rr_class = 1, rr_ttl = 256, rr_rdlength = 4, rr_rdata = RStr ''10.0.0.2''\<rparr>],
     51)) \<and>
   (\<exists>spans. rr_spans mixed_records 3 3 = Some spans \<and> map snd spans = [4, 3, 4]
      \<and> 51 = spans_end 3 spans)"
proof -
  let ?rs = "[\<lparr>rr_name = ''a'', rr_type = 2, rr_class = 1, rr_ttl = 9, rr_rdlength = 4, rr_rdata = RStr ''a''\<rparr>,
      \<lparr>rr_name = ''b'', rr_type = 16, rr_class = 1, rr_ttl = 9, rr_rdlength = 3, rr_rdata = RBytes [7, 8, 9]\<rparr>,
      \<lparr>rr_name = ''a'', rr_type = 1, rr_class = 1, rr_ttl = 256, rr_rdlength = 4, rr_rdata = RStr ''10.0.0.2''\<rparr>]"
  from parse_resource_records_offset [of mixed_records 3 3 ?rs 51] mixed_all mixed_well_formed
  show ?thesis by auto
qed

text \<open>
  C9. Whenever \<open>parse_name\<close> returns, the offset returned is at least one byte beyond the
  start, and at least two when the first byte read is a pointer; hence a record that is
  decoded moves the offset forwards (by the name and its 10-byte header at least), and so
  does a question that is skipped, and any non-empty sequence of them.
\<close>

theorem parse_name_progress:
  "(parse_name msg off = Some (Inr (name, nxt)) \<longrightarrow>
      off + 1 \<le> nxt \<and> (unat (msg ! off) AND 0xC0 = 0xC0 \<longrightarrow> off + 2 \<le> nxt)) \<and>
   (parse_rr msg off = Some (Inr (r, off1)) \<longrightarrow> off + 11 \<le> off1) \<and>
   (skip_questions msg (Suc n) off = Some (Inr off2) \<longrightarrow> off + 5 \<le> off2) \<and>
   (parse_resource_records msg (Suc m) off = Some (Inr (rs, off3)) \<longrightarrow> off + 11 \<le> off3)"
proof (intro conjI impI)
  assume pn: "parse_name msg off = Some (Inr (name, nxt))"
  from parse_name_sound [OF pn] have fe: "field_end msg off = Some nxt" by auto
  from field_end_bounds [OF fe] show "off + 1 \<le> nxt" by simp
  assume "unat (msg ! off) AND 0xC0 = 0xC0"
  then have "is_pointer (msg ! off)" by (simp add: top_bits_iff)
  with field_end_bounds [OF fe] show "off + 2 \<le> nxt" by simp
next
  assume "parse_rr msg off = Some (Inr (r, off1))"
  then show "off + 11 \<le> off1" by (rule parse_rr_progress)
next
  assume "skip_questions msg (Suc n) off = Some (Inr off2)"
  then obtain name' nxt' where
    pn: "parse_name msg off = Some (Inr (name', nxt'))" and
    rest: "skip_questions msg n (nxt' + 4) = Some (Inr off2)"
    by (auto split: option.splits sum.splits)
  from parse_name_sound [OF pn] have "field_end msg off = Some nxt'" by auto
  then have "off < nxt'" by (auto dest: field_end_bounds)
  with skip_questions_mono [OF rest] show "off + 5 \<le> off2" by simp
next
  assume "parse_resource_records msg (Suc m) off = Some (Inr (rs, off3))"
  then obtain r' off' where
    rr: "parse_rr msg off = Some (Inr (r', off'))" and
    rest: "parse_rr_loop msg m off' ([] @ [r']) = Some (Inr (rs, off3))"
    by (auto simp: parse_resource_records_def split: option.splits sum.splits)
  from parse_rr_progress [OF rr] parse_rr_loop_mono [OF rest] show "off + 11 \<le> off3" by simp
qed

lemma mixed_questions: "skip_questions mixed_records (Suc 0) 3 = Some (Inr 9)"
  by (simp add: mixed_names)

theorem parse_name_progress_witness:
  "parse_name mixed_records 3 = Some (Inr (''a'', 5)) \<and>
   unat (mixed_records ! 3) AND 0xC0 = 0xC0 \<and>
   parse_rr mixed_records 3 = Some (Inr (\<lparr>rr_name = ''a'', rr_type = 2, rr_class = 1,
      rr_ttl = 9, rr_rdlength = 4, rr_rdata = RStr ''a''\<rparr>, 19)) \<and>
   skip_questions mixed_records (Suc 0) 3 = Some (Inr 9) \<and>
   (3::nat) + 2 \<le> 5 \<and> (3::nat) + 11 \<le> 19 \<and> (3::nat) + 5 \<le> 9 \<and> (3::nat) + 11 \<le> 51"
proof -
  have p: "unat (mixed_records ! 3) AND 0xC0 = 0xC0"
    unfolding mixed_records_def by simp
  have a: "parse_resource_records mixed_records (Suc 2) 3 = Some (Inr (
     [\<lparr>rr_name = ''a'', rr_type = 2, rr_class = 1, rr_ttl = 9, rr_rdlength = 4, rr_rdata = RStr ''a''\<rparr>,
      \<lparr>rr_name = ''b'', rr_type = 16, rr_class = 1, rr_ttl = 9, rr_rdlength = 3, rr_rdata = RBytes [7, 8, 9]\<rparr>,
      \<lparr>rr_name = ''a'', rr_type = 1, rr_class = 1, rr_ttl = 256, rr_rdlength = 4, rr_rdata = RStr ''10.0.0.2''\<rparr>],
     51))"
    using mixed_all by (simp add: numeral_3_eq_3)
  from parse_name_progress [of mixed_records 3 "''a''" 5 _ 19 0 9 2 _ 51]
    mixed_names(1) p mixed_rr_3 mixed_questions a
  show ?thesis by simp
qed

subsection \<open>parse_dns_response\<close>

lemma skip_questions_unfold:
  "skip_questions message qdcount offset =
     (if qdcount = 0 then Some (Inr offset)
      else (case parse_name message offset of
              None \<Rightarrow> None
            | Some (Inl e) \<Rightarrow> Some (Inl e)
            | Some (Inr (_, offset')) \<Rightarrow> skip_questions message (qdcount - 1) (offset' + 4)))"
  by (cases qdcount) (auto split: option.splits sum.splits)

lemmas eval_response = parse_dns_response_def parse_resource_records_def parse_rr_loop_unfold
  skip_questions_unfold eval_rr eval_name

lemma response_referral_glue:
  "parse_dns_response referral_glue = Some (Inr \<lparr>pr_id = 1, pr_flags = 33152, pr_answers = [],
     pr_authorities = [\<lparr>rr_name = ''a'', rr_type = 2, rr_class = 1, rr_ttl = 5, rr_rdlength = 4,
                        rr_rdata = RStr ''ns''\<rparr>],
     pr_additionals = [\<lparr>rr_name = ''ns'', rr_type = 1, rr_class = 1, rr_ttl = 5, rr_rdlength = 4,
                        rr_rdata = RStr ''10.0.0.2''\<rparr>]\<rparr>)"
  unfolding referral_glue_def by (simp add: eval_response)


lemma response_full_answer:
  "parse_dns_response full_answer = Some (Inr \<lparr>pr_id = 1, pr_flags = 33152,
     pr_answers = [\<lparr>rr_name = ''a'', rr_type = 1, rr_class = 1, rr_ttl = 5, rr_rdlength = 4,
                        rr_rdata = RStr ''93.184.216.34''\<rparr>],
     pr_authorities = [\<lparr>rr_name = ''a'', rr_type = 2, rr_class = 1, rr_ttl = 5, rr_rdlength = 4,
                        rr_rdata = RStr ''ns''\<rparr>],
     pr_additionals = [\<lparr>rr_name = ''ns'', rr_type = 1, rr_class = 1, rr_ttl = 5, rr_rdlength = 4,
                        rr_rdata = RStr ''10.0.0.2''\<rparr>]\<rparr>)"
  unfolding full_answer_def by (simp add: eval_response)

lemma response_short_a_answer:
  "parse_dns_response short_a_answer = Some (Inr \<lparr>pr_id = 1, pr_flags = 33152,
     pr_answers = [\<lparr>rr_name = ''a'', rr_type = 1, rr_class = 1, rr_ttl = 5, rr_rdlength = 3,
                        rr_rdata = RBytes [1, 2, 3]\<rparr>],
     pr_authorities = [], pr_additionals = []\<rparr>)"
  unfolding short_a_answer_def by (simp add: eval_response)

lemma response_long_a_answer:
  "parse_dns_response long_a_answer = Some (Inr \<lparr>pr_id = 2, pr_flags = 33152,
     pr_answers = [\<lparr>rr_name = ''b'', rr_type = 1, rr_class = 1, rr_ttl = 5, rr_rdlength = 5,
                        rr_rdata = RBytes [1, 2, 3, 4, 5]\<rparr>],
     pr_authorities = [], pr_additionals = []\<rparr>)"
  unfolding long_a_answer_def by (simp add: eval_response)



lemma query_a: "build_dns_query tid ''a'' = Inr (tid, pack_H (unat tid) @ [1, 0, 0, 1, 0, 0, 0, 0, 0, 0, 1, 0x61, 0, 0, 1, 0, 1])"
  by (simp add: build_dns_query_def pack_H_def pack_B_def encode_ascii_def is_ascii_def byte_of_char_def)

lemma result_cases:
  obtains "x = None" | e where "x = Some (Inl e)" | v where "x = Some (Inr v)"
proof (cases x)
  case None
  then show ?thesis by (rule that(1))
next
  case (Some a)
  then show ?thesis by (cases a) (auto intro: that)
qed

lemma parse_dns_response_Inr:
  assumes "parse_dns_response msg = Some (Inr p)"
  obtains o0 o1 o2 o3 where
    "12 \<le> length msg"
    "skip_questions msg (unpack_H (slice msg 0 12) 4) 12 = Some (Inr o0)"
    "parse_resource_records msg (unpack_H (slice msg 0 12) 6) o0 = Some (Inr (pr_answers p, o1))"
    "parse_resource_records msg (unpack_H (slice msg 0 12) 8) o1 = Some (Inr (pr_authorities p, o2))"
    "parse_resource_records msg (unpack_H (slice msg 0 12) 10) o2 = Some (Inr (pr_additionals p, o3))"
proof -
  let ?h = "slice msg 0 12"
  have len: "length ?h = 12"
  proof (rule ccontr)
    assume "length ?h \<noteq> 12"
    with assms show False by (simp add: parse_dns_response_def Let_def)
  qed
  then have len12: "12 \<le> length msg" by (simp add: length_slice)
  from assms len have s0:
    "(case skip_questions msg (unpack_H ?h 4) 12 of
        None \<Rightarrow> None
      | Some (Inl e) \<Rightarrow> Some (Inl e)
      | Some (Inr offset) \<Rightarrow>
          (case parse_resource_records msg (unpack_H ?h 6) offset of
              None \<Rightarrow> None
            | Some (Inl e) \<Rightarrow> Some (Inl e)
            | Some (Inr (answers, offset)) \<Rightarrow>
          (case parse_resource_records msg (unpack_H ?h 8) offset of
              None \<Rightarrow> None
            | Some (Inl e) \<Rightarrow> Some (Inl e)
            | Some (Inr (authorities, offset)) \<Rightarrow>
          (case parse_resource_records msg (unpack_H ?h 10) offset of
              None \<Rightarrow> None
            | Some (Inl e) \<Rightarrow> Some (Inl e)
            | Some (Inr (additionals, offset)) \<Rightarrow>
                Some (Inr \<lparr>pr_id = unpack_H ?h 0, pr_flags = unpack_H ?h 2,
                           pr_answers = answers, pr_authorities = authorities,
                           pr_additionals = additionals\<rparr>)))))
     = Some (Inr p)"
    by (simp add: parse_dns_response_def Let_def)
  obtain o0 where q: "skip_questions msg (unpack_H ?h 4) 12 = Some (Inr o0)"
    using s0 by (cases "skip_questions msg (unpack_H ?h 4) 12" rule: result_cases) simp_all
  obtain an o1 where a: "parse_resource_records msg (unpack_H ?h 6) o0 = Some (Inr (an, o1))"
    using s0
    by (cases "parse_resource_records msg (unpack_H ?h 6) o0" rule: result_cases) (auto simp: q)
  obtain ns o2 where n: "parse_resource_records msg (unpack_H ?h 8) o1 = Some (Inr (ns, o2))"
    using s0
    by (cases "parse_resource_records msg (unpack_H ?h 8) o1" rule: result_cases) (auto simp: q a)
  obtain ar o3 where r: "parse_resource_records msg (unpack_H ?h 10) o2 = Some (Inr (ar, o3))"
    using s0
    by (cases "parse_resource_records msg (unpack_H ?h 10) o2" rule: result_cases) (auto simp: q a n)
  from s0 have e: "pr_answers p = an" "pr_authorities p = ns" "pr_additionals p = ar"
    by (auto simp: q a n r)
  show ?thesis
    by (rule that [OF len12 q a [folded e(1)] n [folded e(2)] r [folded e(3)]])
qed

lemma skip_questions_end:
  "skip_questions msg n off = Some (Inr off') \<Longrightarrow> questions_end msg n off = Some off'"
proof (induction n arbitrary: off)
  case 0
  then show ?case by simp
next
  case (Suc n)
  from Suc.prems obtain name h where
    pn: "parse_name msg off = Some (Inr (name, h))" and
    rest: "skip_questions msg n (h + 4) = Some (Inr off')"
    by (auto split: option.splits sum.splits)
  from parse_name_sound [OF pn] have "field_end msg off = Some h" by auto
  with Suc.IH [OF rest] show ?case by simp
qed

lemma header_be16:
  "12 \<le> length msg \<Longrightarrow> i + 1 < 12 \<Longrightarrow> unpack_H (slice msg 0 12) i = be16_at msg i"
  by (simp add: unpack_H_def be16_at_def slice_def)

lemma response_answers_at:
  assumes "parse_dns_response msg = Some (Inr p)"
  shows "\<exists>spans. answer_spans msg = Some spans \<and> list_all2 (record_at msg) (pr_answers p) spans"
proof -
  from assms obtain o0 o1 where
    len: "12 \<le> length msg" and
    q: "skip_questions msg (unpack_H (slice msg 0 12) 4) 12 = Some (Inr o0)" and
    a: "parse_resource_records msg (unpack_H (slice msg 0 12) 6) o0 = Some (Inr (pr_answers p, o1))"
    by (rule parse_dns_response_Inr)
  from skip_questions_end [OF q] have qe: "questions_end msg (be16_at msg 4) 12 = Some o0"
    by (simp add: header_be16 [OF len])
  from a have "parse_rr_loop msg (be16_at msg 6) o0 [] = Some (Inr (pr_answers p, o1))"
    by (simp add: parse_resource_records_def header_be16 [OF len])
  from parse_rr_loop_records [OF this] obtain spans where
    "rr_spans msg (be16_at msg 6) o0 = Some spans" "list_all2 (record_at msg) (pr_answers p) spans"
    by auto
  with len qe show ?thesis by (simp add: answer_spans_def)
qed

lemma main_eq:
  "main script domain_name root =
     (SetTimeout 5 # fst (main_loop script domain_name (RStr root))
        @ (if normal_exit (snd (main_loop script domain_name (RStr root))) then [Close] else []),
      snd (main_loop script domain_name (RStr root)))"
  by (simp add: main_def split_beta)

subsection \<open>The resolver engine\<close>










lemma extract_loop_eq:
  "extract_loop rs ips = ips @ map rr_rdata (filter (\<lambda>rr. rr_type rr = 1) rs)"
  by (induction rs arbitrary: ips) auto

lemma extract_answer_ips_eq:
  "extract_answer_ips p = map rr_rdata (filter (\<lambda>rr. rr_type rr = 1) (pr_answers p))"
  by (simp add: extract_answer_ips_def extract_loop_eq)

lemma main_loop_datagram:
  assumes "build_dns_query tid domain_name = Inr (tid', q)"
      and "parse_dns_response (take 512 d) = Some (Inr p)"
  shows "main_loop ((tid, Datagram d) # script) domain_name srv =
     (if extract_answer_ips p \<noteq> [] then
        ([SendTo q srv 53, RecvFrom 512], ANSWERED (extract_answer_ips p))
      else (case choose_next_server p of
              None \<Rightarrow> ([SendTo q srv 53, RecvFrom 512,
                         Print ''No intermediate DNS server IP found. Stopping resolution.''],
                        NO_PROGRESS NoNextServer)
            | Some next_server_ip \<Rightarrow>
                (SendTo q srv 53 # RecvFrom 512 # fst (main_loop script domain_name next_server_ip),
                 snd (main_loop script domain_name next_server_ip))))"
  using assms by (simp add: Let_def split_beta split: option.splits)


lemma main_loop_timeout:
  assumes "build_dns_query tid domain_name = Inr (tid', q)"
  shows "main_loop ((tid, Timeout) # script) domain_name srv =
           ([SendTo q srv 53, RecvFrom 512, Print ''Reply timed out. Stopping resolution.''],
            NO_PROGRESS ReplyTimedOut)"
  using assms by simp

lemma main_loop_querying:
  assumes "snd (main_loop ((tid, reply) # pre) domain_name srv) = QUERYING srv'"
  shows "\<exists>tid' q d p nx. build_dns_query tid domain_name = Inr (tid', q) \<and> reply = Datagram d
           \<and> parse_dns_response (take 512 d) = Some (Inr p) \<and> extract_answer_ips p = []
           \<and> choose_next_server p = Some nx
           \<and> snd (main_loop pre domain_name nx) = QUERYING srv'"
proof (cases "build_dns_query tid domain_name")
  case (Inl e)
  with assms show ?thesis by simp
next
  case (Inr tq)
  then obtain tid' q where b: "build_dns_query tid domain_name = Inr (tid', q)" by (cases tq) auto
  show ?thesis
  proof (cases reply)
    case Timeout
    with assms b show ?thesis by simp
  next
    case (Datagram d)
    show ?thesis
    proof (cases "parse_dns_response (take 512 d)")
      case None
      with assms b Datagram show ?thesis by simp
    next
      case (Some res)
      show ?thesis
      proof (cases res)
        case (Inl e)
        with assms b Datagram Some show ?thesis by simp
      next
        case (Inr p)
        with Some have p: "parse_dns_response (take 512 d) = Some (Inr p)" by simp
        note step = main_loop_datagram [OF b p, of pre srv]
        from assms have na: "extract_answer_ips p = []"
          unfolding Datagram step by (auto split: if_splits)
        from assms na obtain nx where nx: "choose_next_server p = Some nx"
          unfolding Datagram step by (cases "choose_next_server p") auto
        from assms na nx have "snd (main_loop pre domain_name nx) = QUERYING srv'"
          unfolding Datagram step by simp
        with b Datagram p na nx show ?thesis by blast
      qed
    qed
  qed
qed

lemma main_loop_append:
  "snd (main_loop pre domain_name srv) = QUERYING srv' \<Longrightarrow>
     main_loop (pre @ rest) domain_name srv =
       (fst (main_loop pre domain_name srv) @ fst (main_loop rest domain_name srv'),
        snd (main_loop rest domain_name srv'))"
proof (induction pre arbitrary: srv)
  case Nil
  then show ?case by simp
next
  case (Cons x pre)
  obtain tid reply where x: "x = (tid, reply)" by (cases x)
  from main_loop_querying [OF Cons.prems [unfolded x]] obtain tid' q d p nx where
    b: "build_dns_query tid domain_name = Inr (tid', q)" and r: "reply = Datagram d" and
    p: "parse_dns_response (take 512 d) = Some (Inr p)" and na: "extract_answer_ips p = []" and
    nx: "choose_next_server p = Some nx" and
    q: "snd (main_loop pre domain_name nx) = QUERYING srv'"
    by blast
  have s1: "main_loop (x # pre) domain_name srv =
          (SendTo q srv 53 # RecvFrom 512 # fst (main_loop pre domain_name nx),
           snd (main_loop pre domain_name nx))"
    unfolding x r main_loop_datagram [OF b p] using na nx by simp
  have s2: "main_loop (x # pre @ rest) domain_name srv =
          (SendTo q srv 53 # RecvFrom 512 # fst (main_loop (pre @ rest) domain_name nx),
           snd (main_loop (pre @ rest) domain_name nx))"
    unfolding x r main_loop_datagram [OF b p] using na nx by simp
  show ?case using Cons.IH [OF q] s1 s2 by simp
qed

lemma main_loop_step_events:
  "\<exists>evs. fst (main_loop (x # script) domain_name srv) = evs \<and>
     (fst (main_loop (x # script) domain_name srv) = []
      \<or> (\<exists>q. fst (main_loop (x # script) domain_name srv) = [SendTo q srv 53, RecvFrom 512])
      \<or> (\<exists>q s. fst (main_loop (x # script) domain_name srv) = [SendTo q srv 53, RecvFrom 512, Print s])
      \<or> (\<exists>q nx. fst (main_loop (x # script) domain_name srv)
            = SendTo q srv 53 # RecvFrom 512 # fst (main_loop script domain_name nx)))"
proof -
  obtain tid reply where x: "x = (tid, reply)" by (cases x)
  show ?thesis
  proof (cases "build_dns_query tid domain_name")
    case (Inl e)
    with x show ?thesis by simp
  next
    case (Inr tq)
    then obtain tid' q where b: "build_dns_query tid domain_name = Inr (tid', q)" by (cases tq) auto
    show ?thesis
    proof (cases reply)
      case Timeout
      with x b show ?thesis by simp
    next
      case (Datagram d)
      show ?thesis
      proof (cases "parse_dns_response (take 512 d)")
        case None
        with x b Datagram show ?thesis by simp
      next
        case (Some res)
        show ?thesis
        proof (cases res)
          case (Inl e)
          with x b Datagram Some show ?thesis by simp
        next
          case (Inr p)
          with Some have p: "parse_dns_response (take 512 d) = Some (Inr p)" by simp
          show ?thesis
            unfolding x Datagram main_loop_datagram [OF b p]
            by (cases "choose_next_server p") auto
        qed
      qed
    qed
  qed
qed

lemma main_loop_no_settimeout:
  "SetTimeout t \<notin> set (fst (main_loop script domain_name srv))"
proof (induction script arbitrary: srv)
  case Nil
  show ?case by simp
next
  case (Cons x script)
  from main_loop_step_events [of x script domain_name srv] Cons.IH show ?case by auto
qed

declare main_loop.simps(2) [simp del]

lemma take_512:
  "take 512 referral_glue = referral_glue"
  "take 512 referral_no_glue = referral_no_glue"
  "take 512 full_answer = full_answer"
  "take 512 short_a_answer = short_a_answer"
  "take 512 long_a_answer = long_a_answer"
  "take 512 truncated_header = truncated_header"
  "take 512 bad_pointer = bad_pointer"
  by (simp_all add: referral_glue_def referral_no_glue_def full_answer_def short_a_answer_def
        long_a_answer_def truncated_header_def bad_pointer_def)

lemma main_loop_referral_glue:
  "main_loop [(1, Datagram referral_glue)] ''a'' (RStr ''198.41.0.4'') =
     ([SendTo (pack_H 1 @ [1, 0, 0, 1, 0, 0, 0, 0, 0, 0, 1, 0x61, 0, 0, 1, 0, 1])
         (RStr ''198.41.0.4'') 53, RecvFrom 512],
      QUERYING (RStr ''10.0.0.2''))"
  using main_loop_datagram [OF query_a [of 1], of referral_glue _ "[]" "RStr ''198.41.0.4''"]
  by (simp add: take_512 response_referral_glue extract_answer_ips_eq choose_next_server_def)



lemma answered_result:
  assumes "build_dns_query tid domain_name = Inr (tid', q)"
      and "parse_dns_response (take 512 d) = Some (Inr p)"
      and "\<exists>r \<in> set (pr_answers p). rr_type r = 1"
  shows "main ((tid, Datagram d) # script) domain_name root =
           ([SetTimeout 5, SendTo q (RStr root) 53, RecvFrom 512, Close],
            ANSWERED (map rr_rdata (filter (\<lambda>r. rr_type r = 1) (pr_answers p))))"
proof -
  from assms(3) have "extract_answer_ips p \<noteq> []"
    by (auto simp: extract_answer_ips_eq filter_empty_conv)
  then show ?thesis
    by (simp add: main_eq main_loop_datagram [OF assms(1,2)] normal_exit_def
          extract_answer_ips_eq)
qed

text \<open>
  C4. The reply \<open>short_a_answer\<close> is a response with one question and one answer, a record
  of type A that declares 3 bytes of rdata. It decodes, the run ends in \<open>ANSWERED\<close> on
  it, and the result is the list holding the three raw bytes of the rdata: the result of a
  run that ends in \<open>ANSWERED\<close> is not always a list of IPv4 address strings, which is
  what \<open>extract_answer_ips\<close> is documented to collect.
\<close>

theorem answered_with_raw_bytes:
  "parse_dns_response (take 512 short_a_answer) = Some (Inr \<lparr>pr_id = 1, pr_flags = 33152,
     pr_answers = [\<lparr>rr_name = ''a'', rr_type = 1, rr_class = 1, rr_ttl = 5, rr_rdlength = 3,
                        rr_rdata = RBytes [1, 2, 3]\<rparr>],
     pr_authorities = [], pr_additionals = []\<rparr>) \<and>
   extract_answer_ips \<lparr>pr_id = 1, pr_flags = 33152,
     pr_answers = [\<lparr>rr_name = ''a'', rr_type = 1, rr_class = 1, rr_ttl = 5, rr_rdlength = 3,
                        rr_rdata = RBytes [1, 2, 3]\<rparr>],
     pr_authorities = [], pr_additionals = []\<rparr> = [RBytes [1, 2, 3]] \<and>
   main [(9, Datagram short_a_answer)] ''a'' ''198.41.0.4'' =
     ([SetTimeout 5,
       SendTo [0, 9, 1, 0, 0, 1, 0, 0, 0, 0, 0, 0, 1, 0x61, 0, 0, 1, 0, 1] (RStr ''198.41.0.4'') 53,
       RecvFrom 512, Close],
      ANSWERED [RBytes [1, 2, 3]])"
  by (simp add: main_eq main_loop.simps query_a take_512 response_short_a_answer
        extract_answer_ips_def normal_exit_def pack_H_def)




text \<open>
  C8. The timeout is set once, before the loop, and no iteration sets it again. When a
  receive times out, in whatever iteration, the run reports it and ends in \<open>NO_PROGRESS\<close>:
  the query that timed out is the last one sent, to the server that was current, and the
  rest of the script plays no part.
\<close>

theorem timeout_ends_run:
  "(\<exists>events. fst (main script domain_name root) = SetTimeout 5 # events
       \<and> (\<forall>t. SetTimeout t \<notin> set events)) \<and>
   (snd (main_loop pre domain_name (RStr root)) = QUERYING srv \<longrightarrow>
    build_dns_query tid domain_name = Inr (tid', q) \<longrightarrow>
      main (pre @ (tid, Timeout) # post) domain_name root =
        (SetTimeout 5 # fst (main_loop pre domain_name (RStr root))
           @ [SendTo q srv 53, RecvFrom 512, Print ''Reply timed out. Stopping resolution.'', Close],
         NO_PROGRESS ReplyTimedOut))"
proof (intro conjI impI)
  show "\<exists>events. fst (main script domain_name root) = SetTimeout 5 # events
       \<and> (\<forall>t. SetTimeout t \<notin> set events)"
    by (simp add: main_eq main_loop_no_settimeout)
next
  assume a: "snd (main_loop pre domain_name (RStr root)) = QUERYING srv"
     and b: "build_dns_query tid domain_name = Inr (tid', q)"
  show "main (pre @ (tid, Timeout) # post) domain_name root =
        (SetTimeout 5 # fst (main_loop pre domain_name (RStr root))
           @ [SendTo q srv 53, RecvFrom 512, Print ''Reply timed out. Stopping resolution.'', Close],
         NO_PROGRESS ReplyTimedOut)"
    by (simp add: main_eq main_loop_append [OF a] main_loop_timeout [OF b] normal_exit_def)
qed

theorem timeout_ends_run_witness:
  "main [(1, Datagram referral_glue), (2, Timeout), (3, Datagram full_answer)]
        ''a'' ''198.41.0.4'' =
     ([SetTimeout 5,
       SendTo [0, 1, 1, 0, 0, 1, 0, 0, 0, 0, 0, 0, 1, 0x61, 0, 0, 1, 0, 1] (RStr ''198.41.0.4'') 53,
       RecvFrom 512,
       SendTo [0, 2, 1, 0, 0, 1, 0, 0, 0, 0, 0, 0, 1, 0x61, 0, 0, 1, 0, 1] (RStr ''10.0.0.2'') 53,
       RecvFrom 512, Print ''Reply timed out. Stopping resolution.'', Close],
      NO_PROGRESS ReplyTimedOut)"
proof -
  have q: "snd (main_loop [(1, Datagram referral_glue)] ''a'' (RStr ''198.41.0.4''))
             = QUERYING (RStr ''10.0.0.2'')"
    by (simp add: main_loop_referral_glue)
  from timeout_ends_run
         [of _ "''a''" "''198.41.0.4''" "[(1, Datagram referral_glue)]" "RStr ''10.0.0.2''" 2 2 _
             "[(3, Datagram full_answer)]"]
       q query_a [of 2]
  show ?thesis by (simp add: main_loop_referral_glue pack_H_def)
qed

text \<open>
  C10. In every decoded reply, an answer record of type A that declares an rdata length
  other than 4 holds the raw bytes of its own rdata (those of its span that the datagram
  holds), not a string; \<open>extract_answer_ips\<close> selects the answer records by their type
  alone, so it returns these bytes with the rest; and the run ends in \<open>ANSWERED\<close> with
  exactly what it returns.
\<close>

theorem malformed_a_record_answers_raw_bytes:
  assumes "build_dns_query tid domain_name = Inr (tid', q)"
      and "parse_dns_response (take 512 d) = Some (Inr p)"
  shows "(\<exists>spans. answer_spans (take 512 d) = Some spans \<and>
            list_all2 (record_at (take 512 d)) (pr_answers p) spans \<and>
            (\<forall>i < length spans.
               rr_type (pr_answers p ! i) = 1 \<and> snd (spans ! i) \<noteq> 4 \<longrightarrow>
                 rr_rdlength (pr_answers p ! i) = snd (spans ! i) \<and>
                 rr_rdata (pr_answers p ! i)
                   = RBytes (slice (take 512 d) (fst (spans ! i)) (fst (spans ! i) + snd (spans ! i))))) \<and>
         extract_answer_ips p = map rr_rdata (filter (\<lambda>r. rr_type r = 1) (pr_answers p)) \<and>
         ((\<exists>r \<in> set (pr_answers p). rr_type r = 1) \<longrightarrow>
            main ((tid, Datagram d) # script) domain_name root =
              ([SetTimeout 5, SendTo q (RStr root) 53, RecvFrom 512, Close],
               ANSWERED (map rr_rdata (filter (\<lambda>r. rr_type r = 1) (pr_answers p)))))"
proof (intro conjI impI)
  from response_answers_at [OF assms(2)] obtain spans where
    sp: "answer_spans (take 512 d) = Some spans" and
    la: "list_all2 (record_at (take 512 d)) (pr_answers p) spans"
    by blast
  have "\<forall>i < length spans.
               rr_type (pr_answers p ! i) = 1 \<and> snd (spans ! i) \<noteq> 4 \<longrightarrow>
                 rr_rdlength (pr_answers p ! i) = snd (spans ! i) \<and>
                 rr_rdata (pr_answers p ! i)
                   = RBytes (slice (take 512 d) (fst (spans ! i)) (fst (spans ! i) + snd (spans ! i)))"
  proof (intro allI impI)
    fix i
    assume i: "i < length spans"
       and t: "rr_type (pr_answers p ! i) = 1 \<and> snd (spans ! i) \<noteq> 4"
    from la i have "record_at (take 512 d) (pr_answers p ! i) (spans ! i)"
      by (simp add: list_all2_conv_all_nth)
    with t show "rr_rdlength (pr_answers p ! i) = snd (spans ! i) \<and>
                 rr_rdata (pr_answers p ! i)
                   = RBytes (slice (take 512 d) (fst (spans ! i)) (fst (spans ! i) + snd (spans ! i)))"
      by (simp add: record_at_def Let_def)
  qed
  with sp la show "\<exists>spans. answer_spans (take 512 d) = Some spans \<and>
            list_all2 (record_at (take 512 d)) (pr_answers p) spans \<and>
            (\<forall>i < length spans.
               rr_type (pr_answers p ! i) = 1 \<and> snd (spans ! i) \<noteq> 4 \<longrightarrow>
                 rr_rdlength (pr_answers p ! i) = snd (spans ! i) \<and>
                 rr_rdata (pr_answers p ! i)
                   = RBytes (slice (take 512 d) (fst (spans ! i)) (fst (spans ! i) + snd (spans ! i))))"
    by blast
next
  show "extract_answer_ips p = map rr_rdata (filter (\<lambda>r. rr_type r = 1) (pr_answers p))"
    by (rule extract_answer_ips_eq)
next
  assume "\<exists>r \<in> set (pr_answers p). rr_type r = 1"
  with assms show "main ((tid, Datagram d) # script) domain_name root =
              ([SetTimeout 5, SendTo q (RStr root) 53, RecvFrom 512, Close],
               ANSWERED (map rr_rdata (filter (\<lambda>r. rr_type r = 1) (pr_answers p))))"
    by (rule answered_result)
qed

lemma long_a_answer_spans: "answer_spans (take 512 long_a_answer) = Some [(31, 5)]"
proof -
  have l: "length long_a_answer = 36" by (simp add: long_a_answer_def)
  have b: "long_a_answer ! 12 = 1" "long_a_answer ! 14 = 0" "long_a_answer ! 19 = 0xC0"
    by (simp_all add: long_a_answer_def)
  have c: "be16_at long_a_answer 4 = Suc 0" "be16_at long_a_answer 6 = Suc 0"
          "declared_rdlength long_a_answer 21 = 5"
    by (simp_all add: long_a_answer_def be16_at_def declared_rdlength_def)
  have f14: "field_end long_a_answer 14 = Some 15"
    by (simp add: field_end.simps [of long_a_answer 14] l b is_pointer_def)
  have f12: "field_end long_a_answer 12 = Some 15"
    by (simp add: field_end.simps [of long_a_answer 12] l b is_pointer_def f14)
  have f19: "field_end long_a_answer 19 = Some 21"
    by (simp add: field_end.simps [of long_a_answer 19] l b is_pointer_def)
  show ?thesis
    by (simp add: take_512 answer_spans_def l c f12 f19)
qed

theorem malformed_a_record_answers_raw_bytes_witness:
  "parse_dns_response (take 512 long_a_answer) = Some (Inr \<lparr>pr_id = 2, pr_flags = 33152,
     pr_answers = [\<lparr>rr_name = ''b'', rr_type = 1, rr_class = 1, rr_ttl = 5, rr_rdlength = 5,
                        rr_rdata = RBytes [1, 2, 3, 4, 5]\<rparr>],
     pr_authorities = [], pr_additionals = []\<rparr>) \<and>
   answer_spans (take 512 long_a_answer) = Some [(31, 5)] \<and>
   slice (take 512 long_a_answer) 31 (31 + 5) = [1, 2, 3, 4, 5] \<and>
   main [(4, Datagram long_a_answer)] ''a'' ''198.41.0.4'' =
     ([SetTimeout 5,
       SendTo [0, 4, 1, 0, 0, 1, 0, 0, 0, 0, 0, 0, 1, 0x61, 0, 0, 1, 0, 1] (RStr ''198.41.0.4'') 53,
       RecvFrom 512, Close],
      ANSWERED [RBytes [1, 2, 3, 4, 5]])"
proof -
  have p: "parse_dns_response (take 512 long_a_answer) = Some (Inr \<lparr>pr_id = 2, pr_flags = 33152,
     pr_answers = [\<lparr>rr_name = ''b'', rr_type = 1, rr_class = 1, rr_ttl = 5, rr_rdlength = 5,
                        rr_rdata = RBytes [1, 2, 3, 4, 5]\<rparr>],
     pr_authorities = [], pr_additionals = []\<rparr>)"
    by (simp add: take_512 response_long_a_answer)
  have s: "slice (take 512 long_a_answer) 31 (31 + 5) = [1, 2, 3, 4, 5]"
    by (simp add: take_512) (simp add: long_a_answer_def slice_def)
  from malformed_a_record_answers_raw_bytes [OF query_a [of 4] p, of "[]" "''198.41.0.4''"]
       long_a_answer_spans s p
  show ?thesis by (simp add: pack_H_def)
qed

subsection \<open>build_dns_query\<close>

lemma pack_H_word: "pack_H (unat (w :: 16 word)) = [ucast (drop_bit 8 w), ucast w]"
proof -
  have "unat w div 256 = unat (drop_bit 8 w)"
    unfolding unat_drop_bit_eq by (simp add: drop_bit_eq_div)
  then have "(of_nat (unat w div 256) :: byte) = ucast (drop_bit 8 w)"
    by (simp only: of_nat_unat)
  moreover have "(of_nat (unat w mod 256) :: byte) = of_nat (unat w)"
    by (simp only: word_of_nat_eq_iff) (simp add: take_bit_eq_mod)
  then have "(of_nat (unat w mod 256) :: byte) = ucast w"
    by (simp only: of_nat_unat)
  ultimately show ?thesis by (simp add: pack_H_def)
qed

lemma encode_labels_Inr:
  "\<forall>l \<in> set labels. length l \<le> 255 \<and> is_ascii l \<Longrightarrow>
     encode_labels labels acc = Inr (acc @ wire_labels_of labels)"
  by (induction labels arbitrary: acc)
     (auto simp: wire_labels_of_def pack_B_def encode_ascii_def)

lemma encode_labels_Inl:
  "\<not> (\<forall>l \<in> set labels. length l \<le> 255 \<and> is_ascii l) \<Longrightarrow>
     \<exists>e. encode_labels labels acc = Inl e"
  by (induction labels arbitrary: acc)
     (auto simp: pack_B_def encode_ascii_def)

lemma encode_utf8_ascii: "is_ascii s \<Longrightarrow> encode_utf8 s = map byte_of_char s"
  by (induction s) (auto simp: encode_utf8_def is_ascii_def byte_of_char_def Let_def)

lemma encode_parts_Inr:
  "\<forall>l \<in> set labels. length l \<le> 255 \<and> is_ascii l \<Longrightarrow>
     encode_parts labels acc = Inr (acc @ wire_labels_of labels)"
  by (induction labels arbitrary: acc)
     (auto simp: wire_labels_of_def pack_B_def encode_utf8_ascii)

lemma build_dns_query_Inr:
  assumes "\<forall>l \<in> set (split_dots name). length l \<le> 255 \<and> is_ascii l"
  shows "build_dns_query tid name = Inr (tid, wire_query tid (split_dots name))"
  by (simp add: build_dns_query_def encode_labels_Inr [OF assms] pack_H_word wire_query_def)
     (simp add: pack_H_def)

lemma split_dots_replicate: "split_dots (replicate n CHR ''a'') = [replicate n CHR ''a'']"
  by (induction n) simp_all

text \<open>
  C7 (as amended). For a name whose labels are ASCII and at most 255 characters long,
  \<open>build_dns_query\<close> returns the identifier it was given and exactly the bytes of the wire
  format, and so does \<open>build_query_packet\<close> (bytes first). For any other name the length
  byte or the ASCII bytes of some label do not exist, and \<open>build_dns_query\<close> raises
  instead of returning.
\<close>

theorem build_dns_query_bytes:
  "((\<forall>l \<in> set (split_dots name). length l \<le> 255 \<and> is_ascii l) \<longrightarrow>
      build_dns_query tid name = Inr (tid, wire_query tid (split_dots name)) \<and>
      build_query_packet tid name = Inr (wire_query tid (split_dots name), tid)) \<and>
   (\<not> (\<forall>l \<in> set (split_dots name). length l \<le> 255 \<and> is_ascii l) \<longrightarrow>
      (\<exists>e. build_dns_query tid name = Inl e))"
proof (intro conjI impI)
  assume a: "\<forall>l \<in> set (split_dots name). length l \<le> 255 \<and> is_ascii l"
  then show "build_dns_query tid name = Inr (tid, wire_query tid (split_dots name))"
    by (rule build_dns_query_Inr)
  show "build_query_packet tid name = Inr (wire_query tid (split_dots name), tid)"
    by (simp add: build_query_packet_def encode_parts_Inr [OF a] pack_H_word wire_query_def)
       (simp add: pack_H_def)
next
  assume "\<not> (\<forall>l \<in> set (split_dots name). length l \<le> 255 \<and> is_ascii l)"
  from encode_labels_Inl [OF this, of "[]"] show "\<exists>e. build_dns_query tid name = Inl e"
    by (auto simp: build_dns_query_def)
qed

theorem build_dns_query_bytes_witness:
  "build_dns_query 0x1234 ''ab.c'' =
     Inr (0x1234, [0x12, 0x34, 1, 0, 0, 1, 0, 0, 0, 0, 0, 0, 2, 0x61, 0x62, 1, 0x63, 0, 0, 1, 0, 1]) \<and>
   build_query_packet 0x1234 ''ab.c'' =
     Inr ([0x12, 0x34, 1, 0, 0, 1, 0, 0, 0, 0, 0, 0, 2, 0x61, 0x62, 1, 0x63, 0, 0, 1, 0, 1], 0x1234) \<and>
   (\<exists>e. build_dns_query 0x1234 [CHR 0xE9] = Inl e)"
proof -
  have a: "\<forall>l \<in> set (split_dots ''ab.c''). length l \<le> 255 \<and> is_ascii l"
    by (simp add: is_ascii_def)
  have b: "\<not> (\<forall>l \<in> set (split_dots [CHR 0xE9]). length l \<le> 255 \<and> is_ascii l)"
    by (simp add: is_ascii_def)
  have w: "wire_query 0x1234 (split_dots ''ab.c'') =
     [0x12, 0x34, 1, 0, 0, 1, 0, 0, 0, 0, 0, 0, 2, 0x61, 0x62, 1, 0x63, 0, 0, 1, 0, 1]"
    by (simp add: wire_query_def wire_labels_of_def byte_of_char_def)
  from build_dns_query_bytes [of "''ab.c''" "0x1234"] build_dns_query_bytes [of "[CHR 0xE9]" "0x1234"]
       a b w
  show ?thesis by simp
qed

theorem build_dns_query_raises_counterexample:
  "build_dns_query 0x1234 (CHR 0xE9 # ''.com'') = Inl UnicodeEncodeError"
  by (simp add: build_dns_query_def pack_B_def encode_ascii_def is_ascii_def)

text \<open>A label of 256 characters has no length byte: \<open>struct.pack\<close> raises.\<close>

lemma oversized_label_raises:
  "build_dns_query 0x1234 (replicate 256 CHR ''a'') = Inl StructError"
  by (simp add: build_dns_query_def split_dots_replicate pack_B_def)

subsection \<open>Encoding a name and decoding it again\<close>

lemma split_dots_not_Nil: "split_dots s \<noteq> []"
  by (induction s) (auto split: list.splits)

lemma join_split_dots: "join_dots (split_dots s) = s"
proof (induction s)
  case Nil
  show ?case by simp
next
  case (Cons c cs)
  obtain l ls where e: "split_dots cs = l # ls"
    using split_dots_not_Nil [of cs] by (cases "split_dots cs") auto
  with Cons show ?case by (cases ls) auto
qed

lemma length_wire_labels_split: "length (wire_labels_of (split_dots s)) = length s + 1"
proof (induction s)
  case Nil
  show ?case by (simp add: wire_labels_of_def)
next
  case (Cons c cs)
  obtain l ls where e: "split_dots cs = l # ls"
    using split_dots_not_Nil [of cs] by (cases "split_dots cs") auto
  with Cons show ?case by (auto simp: wire_labels_of_def)
qed

lemma unat_byte_of_char: "unat (byte_of_char c) = of_char c"
proof -
  have "(of_char c :: nat) < 256" by simp
  then show ?thesis by (simp add: byte_of_char_def unat_of_nat)
qed

lemma decode_encode_ascii: "is_ascii l \<Longrightarrow> decode_ascii (map byte_of_char l) = Inr l"
proof -
  assume a: "is_ascii l"
  have "map char_of_byte (map byte_of_char l) = l"
    by (induction l) (simp_all add: char_of_byte_def unat_byte_of_char)
  moreover from a have "list_all (\<lambda>b. unat b < 128) (map byte_of_char l)"
    by (simp add: is_ascii_def list_all_iff unat_byte_of_char)
  ultimately show ?thesis by (simp add: decode_ascii_def)
qed

lemma unat_length_byte: "n < 256 \<Longrightarrow> unat (of_nat n :: byte) = n"
  by (simp add: unat_of_nat)

lemma parse_name_loop_wire_labels:
  assumes "\<forall>l \<in> set ls. 1 \<le> length l \<and> length l \<le> 191 \<and> is_ascii l"
  shows "parse_name_loop (pre @ wire_labels_of ls @ 0 # post) acc (length pre) orig jumped =
           Some (Inr (acc @ ls, length pre + length (wire_labels_of ls) + 1, orig, jumped))"
  using assms
proof (induction ls arbitrary: pre acc)
  case Nil
  show ?case
    by (subst parse_name_loop_unfold) (simp add: wire_labels_of_def is_pointer_def nth_append)
next
  case (Cons l ls)
  let ?n = "of_nat (length l) :: byte"
  let ?pre = "pre @ ?n # map byte_of_char l"
  let ?msg = "pre @ wire_labels_of (l # ls) @ 0 # post"
  from Cons.prems have len: "1 \<le> length l" "length l \<le> 191" and asc: "is_ascii l"
    and rest: "\<forall>l \<in> set ls. 1 \<le> length l \<and> length l \<le> 191 \<and> is_ascii l"
    by simp_all
  have msg: "?msg = ?pre @ wire_labels_of ls @ 0 # post"
    by (simp add: wire_labels_of_def)
  have un: "unat ?n = length l" using len by (simp add: unat_length_byte)
  have b0: "?msg ! length pre = ?n" by (simp add: wire_labels_of_def nth_append)
  have inb: "\<not> length ?msg \<le> length pre" by simp
  have np: "\<not> is_pointer ?n" using len by (simp add: is_pointer_def un)
  have nz: "?n \<noteq> 0" using len un by (metis One_nat_def not_one_le_zero unat_0)
  have sl: "slice ?msg (length pre + 1) (length pre + 1 + length l) = map byte_of_char l"
    by (simp add: slice_def wire_labels_of_def)
  have step: "parse_name_loop ?msg acc (length pre) orig jumped =
                parse_name_loop ?msg (acc @ [l]) (length pre + 1 + length l) orig jumped"
    by (subst parse_name_loop_unfold)
       (simp only: inb b0 np nz un sl decode_encode_ascii [OF asc] if_False sum.case)
  have "parse_name_loop ?msg (acc @ [l]) (length ?pre) orig jumped =
          Some (Inr ((acc @ [l]) @ ls, length ?pre + length (wire_labels_of ls) + 1, orig, jumped))"
    unfolding msg by (rule Cons.IH [OF rest])
  with step show ?case by (simp add: wire_labels_of_def)
qed

text \<open>
  C6 (as amended). For a name whose labels are ASCII and between 1 and 191 characters
  long (the lengths 1 to 63 of a DNS label among them), \<open>build_dns_query\<close> returns a
  query, and \<open>parse_name\<close> at offset 12 of it returns: the loop collects exactly the labels
  of the name, the name decoded is the original one, and the offset is the end of the
  question name.
\<close>

theorem query_name_roundtrip:
  assumes "\<forall>l \<in> set (split_dots name). 1 \<le> length l \<and> length l \<le> 191 \<and> is_ascii l"
  shows "\<exists>q. build_dns_query tid name = Inr (tid, q) \<and>
           parse_name_loop q [] 12 12 False
             = Some (Inr (split_dots name, 12 + length name + 2, 12, False)) \<and>
           parse_name q 12 = Some (Inr (name, 12 + length name + 2))"
proof -
  let ?hdr = "[ucast (drop_bit 8 tid), ucast tid, 0x01, 0x00, 0, 1, 0, 0, 0, 0, 0, 0] :: byte list"
  let ?q = "wire_query tid (split_dots name)"
  from assms have "\<forall>l \<in> set (split_dots name). length l \<le> 255 \<and> is_ascii l" by auto
  then have b: "build_dns_query tid name = Inr (tid, ?q)" by (rule build_dns_query_Inr)
  have q: "?q = ?hdr @ wire_labels_of (split_dots name) @ 0 # [0, 1, 0, 1]"
    by (simp add: wire_query_def)
  have lh: "length ?hdr = 12" by simp
  have "parse_name_loop (?hdr @ wire_labels_of (split_dots name) @ 0 # [0, 1, 0, 1]) []
           12 12 False
          = Some (Inr ([] @ split_dots name,
                       12 + length (wire_labels_of (split_dots name)) + 1, 12, False))"
    using parse_name_loop_wire_labels [OF assms, of ?hdr "[0, 1, 0, 1]" "[]" 12 False]
    unfolding lh .
  then have l: "parse_name_loop ?q [] 12 12 False
                  = Some (Inr (split_dots name, 12 + length name + 2, 12, False))"
    unfolding q by (simp add: length_wire_labels_split)
  then have "parse_name ?q 12 = Some (Inr (name, 12 + length name + 2))"
    by (simp add: parse_name_def join_split_dots)
  with b l show ?thesis by blast
qed

theorem query_name_roundtrip_witness:
  "build_dns_query 7 ''www.example.com''
     = Inr (7, [0, 7, 1, 0, 0, 1, 0, 0, 0, 0, 0, 0,
                3, 0x77, 0x77, 0x77, 7, 0x65, 0x78, 0x61, 0x6D, 0x70, 0x6C, 0x65, 3, 0x63, 0x6F, 0x6D, 0,
                0, 1, 0, 1]) \<and>
   parse_name [0, 7, 1, 0, 0, 1, 0, 0, 0, 0, 0, 0,
                3, 0x77, 0x77, 0x77, 7, 0x65, 0x78, 0x61, 0x6D, 0x70, 0x6C, 0x65, 3, 0x63, 0x6F, 0x6D, 0,
                0, 1, 0, 1] 12 = Some (Inr (''www.example.com'', 29))"
proof -
  have a: "\<forall>l \<in> set (split_dots ''www.example.com''). 1 \<le> length l \<and> length l \<le> 191 \<and> is_ascii l"
    by (simp add: is_ascii_def)
  have b: "build_dns_query 7 ''www.example.com''
     = Inr (7, [0, 7, 1, 0, 0, 1, 0, 0, 0, 0, 0, 0,
                3, 0x77, 0x77, 0x77, 7, 0x65, 0x78, 0x61, 0x6D, 0x70, 0x6C, 0x65, 3, 0x63, 0x6F, 0x6D, 0,
                0, 1, 0, 1])"
    by (simp add: build_dns_query_def pack_H_def pack_B_def encode_ascii_def is_ascii_def
          byte_of_char_def)
  from query_name_roundtrip [OF a, of 7] b show ?thesis by auto
qed

lemma long_label_build:
  "build_dns_query 0 (replicate 192 CHR ''a'') = Inr (0, long_label_query)"
proof -
  note s = split_dots_replicate
  have "\<forall>l \<in> set (split_dots (replicate 192 CHR ''a'')). length l \<le> 255 \<and> is_ascii l"
    by (simp add: s is_ascii_def list_all_iff)
  from build_dns_query_Inr [OF this, of 0] show ?thesis
    by (simp add: s wire_query_def wire_labels_of_def long_label_query_def byte_of_char_def)
qed

lemma long_label_bytes:
  "length long_label_query = 210"
  "long_label_query ! 12 = 0xC0"
  "long_label_query ! 13 = 0x61"
  "long_label_query ! 97 = 0x61"
  "long_label_query ! 195 = 0x61"
  by (simp_all add: long_label_query_def nth_append)

lemma long_label_slices:
  "slice long_label_query 98 (98 + 97) = replicate 97 0x61"
  "slice long_label_query 196 (196 + 97) = replicate 9 0x61 @ [0, 0, 1, 0, 1]"
  by (simp_all add: long_label_query_def slice_def)

lemma long_label_parse: "parse_name long_label_query 12 = Some (Inl IndexError)"
proof -
  have p: "is_pointer (0xC0 :: byte)" "\<not> is_pointer (0x61 :: byte)"
    by (simp_all add: is_pointer_def)
  have t: "pointer_target (0xC0 :: byte) (0x61 :: byte) = 97"
    by (simp add: pointer_target_def)
  have d1: "\<exists>l. decode_ascii (replicate 97 (0x61 :: byte)) = Inr l"
    by (simp add: decode_ascii_def list_all_iff)
  have d2: "\<exists>l. decode_ascii (replicate 9 (0x61 :: byte) @ [0, 0, 1, 0, 1]) = Inr l"
    by (simp add: decode_ascii_def list_all_iff)
  from d1 obtain l1 where l1: "decode_ascii (replicate 97 (0x61 :: byte)) = Inr l1" ..
  from d2 obtain l2 where l2: "decode_ascii (replicate 9 (0x61 :: byte) @ [0, 0, 1, 0, 1]) = Inr l2" ..
  have "parse_name_loop long_label_query [] 12 12 False
          = parse_name_loop long_label_query [] 97 14 True"
    by (subst parse_name_loop_unfold) (simp add: long_label_bytes p t)
  also have "\<dots> = parse_name_loop long_label_query [l1] 195 14 True"
    using long_label_slices(1)
    by (subst parse_name_loop_unfold) (simp add: long_label_bytes p l1)
  also have "\<dots> = parse_name_loop long_label_query [l1, l2] 293 14 True"
    using long_label_slices(2)
    by (subst parse_name_loop_unfold) (simp add: long_label_bytes p l2)
  also have "\<dots> = Some (Inl IndexError)"
    by (subst parse_name_loop_unfold) (simp add: long_label_bytes)
  finally show ?thesis by (simp add: parse_name_def)
qed

theorem long_label_roundtrip_counterexample:
  "build_dns_query 0 (replicate 192 CHR ''a'') = Inr (0, long_label_query) \<and>
   parse_name long_label_query 12 = Some (Inl IndexError)"
  using long_label_build long_label_parse by simp

text \<open>An empty label is not reproduced either: its length byte ends the name.\<close>

lemma trailing_dot_not_reproduced:
  "build_dns_query 0 ''a.'' = Inr (0, [0, 0, 1, 0, 0, 1, 0, 0, 0, 0, 0, 0, 1, 0x61, 0, 0, 0, 1, 0, 1]) \<and>
   parse_name [0, 0, 1, 0, 0, 1, 0, 0, 0, 0, 0, 0, 1, 0x61, 0, 0, 0, 1, 0, 1] 12
     = Some (Inr (''a'', 15))"
  by (simp add: build_dns_query_def pack_H_def pack_B_def encode_ascii_def is_ascii_def
        byte_of_char_def eval_name)

end
